theory Spec2Isabelle
  imports Complex_Main
begin

section \<open>Exceptions and texts\<close>

text \<open>
  The exceptions the modelled functions raise or pass on.  Python's \<open>except Exception\<close>
  catches every class below except \<open>CancelledError\<close>, which derives from
  \<open>BaseException\<close> only.
\<close>

datatype exn =
    NoApiKeys            \<comment> \<open>\<open>Exception("No API keys available")\<close>\<close>
  | IndexError
  | HTTPException nat
  | TimeoutError         \<comment> \<open>\<open>asyncio.TimeoutError\<close>\<close>
  | RuntimeError string
  | CancelledError

fun is_Exception :: "exn \<Rightarrow> bool" where
  "is_Exception CancelledError = False"
| "is_Exception _ = True"

text \<open>
  The canned texts of the service contain characters outside ASCII, and their wording is
  not what is verified.  A text is therefore a list of pieces: a literal string, or the
  name of a canned entry together with the dictionary key that selects it.  String
  concatenation is list append.
\<close>

datatype fallback_class = Generic | RateLimited | TimedOut | Connection

datatype subject_hint = Matematika | Fisika | Sejarah

datatype piece =
    Raw string
  | Prompt_template string "string option"   \<comment> \<open>\<open>get_educational_system_prompt(emotion, subject)\<close>\<close>
  | Fallback fallback_class string            \<comment> \<open>entry of a fallback table, by key\<close>
  | Subject_line subject_hint
  | Emotion_ack string string                 \<comment> \<open>emoji entry by key, and \<open>emotion.lower()\<close>\<close>
  | Learning_tip string
  | Warning_line string                       \<comment> \<open>the warning sign, the warning and a blank line\<close>

type_synonym pystr = "piece list"

definition is_space :: "char \<Rightarrow> bool" where
  \<comment> \<open>the ASCII characters that \<open>str.strip\<close> removes; the strings of the model are ASCII,
      and the whitespace beyond ASCII that \<open>str.strip\<close> also removes is not covered\<close>
  "is_space c = (let n = (of_char c :: nat) in (9 \<le> n \<and> n \<le> 13) \<or> (28 \<le> n \<and> n \<le> 32))"

definition strip :: "string \<Rightarrow> string" where
  "strip s = rev (dropWhile is_space (rev (dropWhile is_space s)))"

definition lower_char :: "char \<Rightarrow> char" where
  \<comment> \<open>\<open>str.lower\<close> on the ASCII letters; letters beyond ASCII are left as they are\<close>
  "lower_char c =
     (case map_of (zip ''ABCDEFGHIJKLMNOPQRSTUVWXYZ'' ''abcdefghijklmnopqrstuvwxyz'') c of
        Some l \<Rightarrow> l
      | None \<Rightarrow> c)"

definition lower :: "string \<Rightarrow> string" where
  "lower s = map lower_char s"

fun contains :: "string \<Rightarrow> string \<Rightarrow> bool" where
  "contains kw [] = (kw = [])"
| "contains kw (c # cs) = (take (length kw) (c # cs) = kw \<or> contains kw cs)"

definition emotions :: "string list" where
  "emotions = [''Senang'', ''Netral'', ''Bingung'', ''Frustrasi'', ''Marah'']"

definition template_key :: "string \<Rightarrow> string" where
  \<comment> \<open>\<open>table.get(emotion, table["Netral"])\<close>\<close>
  "template_key emotion = (if emotion \<in> set emotions then emotion else ''Netral'')"

section \<open>The LLM service: credential rotation\<close>

record llm_service =
  api_keys :: "string list"
  current_key_index :: nat
  models :: "string list"
  last_used_model :: "string option"
  last_used_key :: "string option"

definition default_models :: "string list" where
  "default_models =
     [''mistralai/mistral-7b-instruct:free'',
      ''google/gemini-2.0-flash-exp:free'',
      ''deepseek/deepseek-r1-0528-qwen3-8b:free'',
      ''z-ai/glm-4.5-air:free'',
      ''deepseek/deepseek-chat-v3.1:free'']"

definition init :: "string list \<Rightarrow> string \<Rightarrow> llm_service" where
  \<comment> \<open>\<open>LLMService.__init__\<close>: \<open>numbered\<close> are the values of \<open>OPENROUTER_API_KEY_1..6\<close>,
      \<open>main\<close> the value of \<open>OPENROUTER_API_KEY\<close> (the empty string when unset).\<close>
  "init numbered main =
     (let keys = filter (\<lambda>k. k \<noteq> []) (map strip numbered);
          keys' = (if keys = [] then (let fallback_key = strip main
                                       in if fallback_key \<noteq> [] then [fallback_key] else keys)
                   else keys)
      in \<lparr> api_keys = keys', current_key_index = 0, models = default_models,
           last_used_model = None, last_used_key = None \<rparr>)"

definition get_next_api_key :: "llm_service \<Rightarrow> exn + (string \<times> llm_service)" where
  "get_next_api_key s =
     (if api_keys s = [] then Inl NoApiKeys
      else if current_key_index s \<ge> length (api_keys s) then Inl IndexError
      else Inr (api_keys s ! current_key_index s,
                s\<lparr>current_key_index := (current_key_index s + 1) mod length (api_keys s)\<rparr>))"

text \<open>\<open>n\<close> successive lookups; an exception ends the sequence.\<close>

fun next_calls :: "nat \<Rightarrow> llm_service \<Rightarrow> exn + (string list \<times> llm_service)" where
  "next_calls 0 s = Inr ([], s)"
| "next_calls (Suc n) s =
     (case get_next_api_key s of
        Inl e \<Rightarrow> Inl e
      | Inr (k, s') \<Rightarrow>
          (case next_calls n s' of
             Inl e \<Rightarrow> Inl e
           | Inr (ks, s'') \<Rightarrow> Inr (k # ks, s'')))"

definition cyclic :: "string list \<Rightarrow> nat \<Rightarrow> nat \<Rightarrow> string list" where
  \<comment> \<open>the pool read cyclically: \<open>n\<close> entries starting at position \<open>c\<close>\<close>
  "cyclic pool c n = map (\<lambda>i. pool ! ((c + i) mod length pool)) [0..<n]"

section \<open>The LLM service: fallback texts and post-processing\<close>

definition get_fallback_response :: "string \<Rightarrow> string \<Rightarrow> pystr" where
  \<comment> \<open>\<open>_get_fallback_response\<close>\<close>
  "get_fallback_response emotion user_message =
     (let base_response = [Fallback Generic (template_key emotion)];
          m = lower user_message
      in if list_ex (\<lambda>keyword. contains keyword m) [''matematika'', ''math'', ''hitung'']
           then base_response @ [Subject_line Matematika]
         else if list_ex (\<lambda>keyword. contains keyword m) [''fisika'', ''physics'']
           then base_response @ [Subject_line Fisika]
         else if list_ex (\<lambda>keyword. contains keyword m) [''sejarah'', ''history'']
           then base_response @ [Subject_line Sejarah]
         else base_response)"

definition get_rate_limit_fallback :: "string \<Rightarrow> pystr" where
  "get_rate_limit_fallback emotion = [Fallback RateLimited (template_key emotion)]"

definition get_timeout_fallback :: "string \<Rightarrow> pystr" where
  "get_timeout_fallback emotion = [Fallback TimedOut (template_key emotion)]"

definition get_connection_fallback :: "string \<Rightarrow> pystr" where
  "get_connection_fallback emotion = [Fallback Connection (template_key emotion)]"

definition enhance_educational_response :: "pystr \<Rightarrow> string \<Rightarrow> real \<Rightarrow> pystr" where
  \<comment> \<open>\<open>_enhance_educational_response\<close>; the tip table has no entry for Netral\<close>
  "enhance_educational_response response emotion confidence =
     (let response1 = (if confidence > 0.85
                       then response @ [Emotion_ack (template_key emotion) (lower emotion)]
                       else response)
      in if emotion \<in> set [''Senang'', ''Bingung'', ''Frustrasi'', ''Marah''] \<and> confidence > 0.7
         then response1 @ [Learning_tip emotion]
         else response1)"

section \<open>The LLM service: one logical request\<close>

text \<open>
  What \<open>requests.post\<close> does on one attempt.  A response carries its status code and,
  for the \<open>200\<close> branch, what reading the body gives: \<open>response.json()\<close> raises
  (\<open>No_json\<close>); the test \<open>"choices" in data and len(data["choices"]) > 0\<close> is false
  (\<open>No_choices\<close>); the test holds but \<open>data["choices"][0]["message"]["content"].strip()\<close>
  raises (\<open>Bad_choice\<close>); or the content is a string (\<open>Content\<close>).
\<close>

datatype body = No_json | No_choices | Bad_choice | Content string

datatype outcome =
    Response int body
  | Timeout              \<comment> \<open>\<open>requests.exceptions.Timeout\<close>\<close>
  | ConnectionError      \<comment> \<open>\<open>requests.exceptions.ConnectionError\<close>\<close>
  | Unexpected string    \<comment> \<open>any other \<open>Exception\<close>\<close>

type_synonym message = "string \<times> pystr"   \<comment> \<open>role and content\<close>

record request =
  authorization :: string        \<comment> \<open>the key of the \<open>Bearer\<close> header\<close>
  model :: string
  messages :: "message list"

text \<open>
  The effects of a request, in order: suspending sleeps (\<open>asyncio.sleep\<close>), blocking
  sleeps (\<open>time.sleep\<close>), lookups of the rotator, the model draw, and outbound calls.
\<close>

datatype event =
    Async_sleep real
  | Blocking_sleep real
  | Next_key string
  | Choice string
  | Post request

text \<open>
  The random draws and the downstream are inputs: \<open>post n r\<close> is what the call of attempt
  \<open>n\<close> (counted from 0) with request \<open>r\<close> does.  The draw of \<open>random.choice\<close> is a
  number, reduced modulo the length of the list so that it is always a position of it.
  Logging changes no result and is left out.  A task cancelled while it sleeps is not a
  behaviour of the downstream; the route below accounts for it.
\<close>

record world =
  uniform_initial :: real             \<comment> \<open>\<open>random.uniform(0.05, 0.3)\<close>\<close>
  choice_index :: nat                 \<comment> \<open>the position \<open>random.choice\<close> draws\<close>
  uniform_rate :: "nat \<Rightarrow> real"       \<comment> \<open>\<open>random.uniform(0.1, 0.3)\<close> in attempt \<open>n\<close>\<close>
  uniform_conn :: "nat \<Rightarrow> real"       \<comment> \<open>\<open>random.uniform(0, 1)\<close> in attempt \<open>n\<close>\<close>
  post :: "nat \<Rightarrow> request \<Rightarrow> outcome"

record call =
  user_message :: string
  emotion :: string
  confidence :: real
  context_messages :: "message list option"
  conversation_subject :: "string option"

definition random_choice :: "'a list \<Rightarrow> nat \<Rightarrow> exn + 'a" where
  \<comment> \<open>\<open>random.choice\<close> raises \<open>IndexError\<close> on an empty sequence\<close>
  "random_choice xs i = (if xs = [] then Inl IndexError else Inr (xs ! (i mod length xs)))"

definition base_delay :: real where
  "base_delay = 0.5"

datatype control = Continue | Return pystr

datatype raised = Timeout_raised | ConnectionError_raised | Exception_raised

text \<open>
  \<open>attempt < max_retries - 1\<close> is read on natural numbers: \<open>attempt\<close> is never negative, so
  the truncating subtraction decides the test as Python's integers do, also for
  \<open>max_retries = 0\<close>.
\<close>

definition handle :: "world \<Rightarrow> call \<Rightarrow> nat \<Rightarrow> nat \<Rightarrow> raised \<Rightarrow> control \<times> event list" where
  \<comment> \<open>the three \<open>except\<close> clauses of the loop body\<close>
  "handle w c max_retries attempt r =
     (case r of
        Timeout_raised \<Rightarrow>
          if attempt < max_retries - 1
          then (Continue, [Blocking_sleep (base_delay * 2 ^ attempt)])
          else (Return (get_timeout_fallback (emotion c)), [])
      | ConnectionError_raised \<Rightarrow>
          if attempt < max_retries - 1
          then (Continue, [Blocking_sleep (base_delay * 2 ^ attempt + uniform_conn w attempt)])
          else (Return (get_connection_fallback (emotion c)), [])
      | Exception_raised \<Rightarrow>
          if attempt < max_retries - 1
          then (Continue, [Async_sleep (base_delay * 2 ^ attempt)])
          else (Return (get_fallback_response (emotion c) (user_message c)), []))"

definition on_response ::
  "world \<Rightarrow> call \<Rightarrow> nat \<Rightarrow> nat \<Rightarrow> string \<Rightarrow> string \<Rightarrow> llm_service \<Rightarrow> int \<Rightarrow> body
     \<Rightarrow> (raised + control) \<times> llm_service \<times> event list" where
  \<comment> \<open>the \<open>if\<close>/\<open>elif\<close> chain on \<open>response.status_code\<close>, inside the \<open>try\<close>\<close>
  "on_response w c max_retries attempt current_api_key selected_model s status_code b =
     (if status_code = 200 then
        (case b of
           No_json \<Rightarrow> (Inl Exception_raised, s, [])
         | No_choices \<Rightarrow>
             if attempt < max_retries - 1 then (Inr Continue, s, [])
             else (Inr (Return (get_fallback_response (emotion c) (user_message c))), s, [])
         | Bad_choice \<Rightarrow> (Inl Exception_raised, s, [])
         | Content text \<Rightarrow>
             (let ai_response = [Raw (strip text)];
                  s' = s\<lparr>last_used_model := Some selected_model,
                          last_used_key := Some current_api_key\<rparr>
              in (Inr (Return (enhance_educational_response ai_response (emotion c) (confidence c))),
                  s', [])))
      else if status_code = 429 then
        (if attempt < max_retries - 1
         then (Inr Continue, s, [Async_sleep (uniform_rate w attempt)])
         else (Inr (Return (get_rate_limit_fallback (emotion c))), s, []))
      else if status_code \<ge> 500 then
        (if attempt < max_retries - 1
         then (Inr Continue, s, [Async_sleep (base_delay * 2 ^ attempt)])
         else (Inr (Return (get_fallback_response (emotion c) (user_message c))), s, []))
      else
        (if attempt < max_retries - 1 then (Inr Continue, s, [])
         else (Inr (Return (get_fallback_response (emotion c) (user_message c))), s, [])))"

definition try_block ::
  "world \<Rightarrow> call \<Rightarrow> message list \<Rightarrow> nat \<Rightarrow> nat \<Rightarrow> string \<Rightarrow> string \<Rightarrow> llm_service
     \<Rightarrow> (raised + control) \<times> string \<times> llm_service \<times> event list" where
  \<comment> \<open>the body of the \<open>try\<close>: rotate (from the second attempt on), post, classify\<close>
  "try_block w c msgs max_retries attempt current_api_key selected_model s =
     (case (if attempt > 0
            then (case get_next_api_key s of
                    Inl e \<Rightarrow> Inl e
                  | Inr (k, s') \<Rightarrow> Inr (k, s', [Next_key k]))
            else Inr (current_api_key, s, [])) of
        Inl e \<Rightarrow> (Inl Exception_raised, current_api_key, s, [])
      | Inr (key, s1, ev1) \<Rightarrow>
          (let r = \<lparr> authorization = key, model = selected_model, messages = msgs \<rparr>
           in case post w attempt r of
                Timeout \<Rightarrow> (Inl Timeout_raised, key, s1, ev1 @ [Post r])
              | ConnectionError \<Rightarrow> (Inl ConnectionError_raised, key, s1, ev1 @ [Post r])
              | Unexpected x \<Rightarrow> (Inl Exception_raised, key, s1, ev1 @ [Post r])
              | Response status_code b \<Rightarrow>
                  (case on_response w c max_retries attempt key selected_model s1 status_code b of
                     (res, s2, ev2) \<Rightarrow> (res, key, s2, ev1 @ [Post r] @ ev2))))"

definition attempt_body ::
  "world \<Rightarrow> call \<Rightarrow> message list \<Rightarrow> nat \<Rightarrow> nat \<Rightarrow> string \<Rightarrow> string \<Rightarrow> llm_service
     \<Rightarrow> control \<times> string \<times> llm_service \<times> event list" where
  \<comment> \<open>one iteration: the \<open>try\<close> with its \<open>except\<close> clauses\<close>
  "attempt_body w c msgs max_retries attempt current_api_key selected_model s =
     (case try_block w c msgs max_retries attempt current_api_key selected_model s of
        (Inr ctl, key, s', ev) \<Rightarrow> (ctl, key, s', ev)
      | (Inl r, key, s', ev) \<Rightarrow>
          (case handle w c max_retries attempt r of
             (ctl, ev') \<Rightarrow> (ctl, key, s', ev @ ev')))"

function attempt_loop ::
  "world \<Rightarrow> call \<Rightarrow> message list \<Rightarrow> nat \<Rightarrow> string \<Rightarrow> nat \<Rightarrow> string \<Rightarrow> llm_service
     \<Rightarrow> pystr \<times> llm_service \<times> event list" where
  \<comment> \<open>\<open>for attempt in range(max_retries)\<close>, and the \<open>return\<close> after the loop\<close>
  "attempt_loop w c msgs max_retries selected_model attempt current_api_key s =
     (if attempt < max_retries then
        (case attempt_body w c msgs max_retries attempt current_api_key selected_model s of
           (Return t, key, s', ev) \<Rightarrow> (t, s', ev)
         | (Continue, key, s', ev) \<Rightarrow>
             (case attempt_loop w c msgs max_retries selected_model (Suc attempt) key s' of
                (t, s'', ev') \<Rightarrow> (t, s'', ev @ ev')))
      else (get_fallback_response (emotion c) (user_message c), s, []))"
  by pat_completeness auto
termination
  by (relation "measure (\<lambda>(w, c, msgs, max_retries, selected_model, attempt, key, s).
                           max_retries - attempt)") auto

declare attempt_loop.simps [simp del]

definition build_messages :: "call \<Rightarrow> message list" where
  "build_messages c =
     [(''system'', [Prompt_template (emotion c) (conversation_subject c)])]
     @ (case context_messages c of
          None \<Rightarrow> []
        | Some ms \<Rightarrow> (if ms \<noteq> [] then butlast ms else []))
     @ [(''user'', [Raw (user_message c)])]"

definition create_empathetic_response ::
  "world \<Rightarrow> llm_service \<Rightarrow> call \<Rightarrow> (exn + pystr) \<times> llm_service \<times> event list" where
  "create_empathetic_response w s c =
     (let msgs = build_messages c;
          ev0 = [Async_sleep (uniform_initial w)];
          max_retries = length (api_keys s) * 2
      in case get_next_api_key s of
           Inl e \<Rightarrow> (Inl e, s, ev0)
         | Inr (current_api_key, s1) \<Rightarrow>
             (case random_choice (models s1) (choice_index w) of
                Inl e \<Rightarrow> (Inl e, s1, ev0 @ [Next_key current_api_key])
              | Inr selected_model \<Rightarrow>
                  (case attempt_loop w c msgs max_retries selected_model 0 current_api_key s1 of
                     (t, s2, ev) \<Rightarrow>
                       (Inr t, s2,
                        ev0 @ [Next_key current_api_key, Choice selected_model] @ ev))))"

text \<open>Projections of the effects: keys handed out, requests sent, models drawn, delays slept.\<close>

fun rotations :: "event list \<Rightarrow> string list" where
  "rotations [] = []"
| "rotations (Next_key k # ev) = k # rotations ev"
| "rotations (_ # ev) = rotations ev"

fun posts :: "event list \<Rightarrow> request list" where
  "posts [] = []"
| "posts (Post r # ev) = r # posts ev"
| "posts (_ # ev) = posts ev"

fun choices :: "event list \<Rightarrow> string list" where
  "choices [] = []"
| "choices (Choice m # ev) = m # choices ev"
| "choices (_ # ev) = choices ev"

fun delays :: "event list \<Rightarrow> real list" where
  "delays [] = []"
| "delays (Async_sleep d # ev) = d # delays ev"
| "delays (Blocking_sleep d # ev) = d # delays ev"
| "delays (_ # ev) = delays ev"

fun is_Post :: "event \<Rightarrow> bool" where
  "is_Post (Post r) = True"
| "is_Post _ = False"

definition backoff_delays :: "event list \<Rightarrow> real list" where
  \<comment> \<open>the delays slept after the first outbound call, that is, between attempts\<close>
  "backoff_delays ev = delays (dropWhile (\<lambda>e. \<not> is_Post e) ev)"

fun status_of :: "outcome \<Rightarrow> int option" where
  "status_of (Response status_code b) = Some status_code"
| "status_of _ = None"

definition sent :: "string \<Rightarrow> message list \<Rightarrow> string list \<Rightarrow> request list" where
  \<comment> \<open>the requests that carry one model and one message list under the given keys\<close>
  "sent m msgs ks = map (\<lambda>k. \<lparr>authorization = k, model = m, messages = msgs\<rparr>) ks"

definition generic_fallback :: "call \<Rightarrow> pystr" where
  "generic_fallback c = get_fallback_response (emotion c) (user_message c)"

definition fallbacks :: "call \<Rightarrow> pystr set" where
  "fallbacks c =
     {get_fallback_response (emotion c) (user_message c), get_rate_limit_fallback (emotion c),
      get_timeout_fallback (emotion c), get_connection_fallback (emotion c)}"

definition live :: "call \<Rightarrow> string \<Rightarrow> pystr" where
  \<comment> \<open>the reply built from the content of a successful response\<close>
  "live c text = enhance_educational_response [Raw (strip text)] (emotion c) (confidence c)"

definition invariant :: "llm_service \<Rightarrow> bool" where
  \<comment> \<open>a non-empty pool, the cursor inside it, and a non-empty model list\<close>
  "invariant s = (api_keys s \<noteq> [] \<and> current_key_index s < length (api_keys s) \<and> models s \<noteq> [])"

section \<open>The quota tracker\<close>

text \<open>
  \<open>user_prompts\<close> is a \<open>defaultdict(deque)\<close>: an identity without an entry reads as the
  empty window, so the table is a total function.  Timestamps are the readings of
  \<open>time.time()\<close>, taken as real numbers; every reading is an argument of the operation that
  takes it.  \<open>enabled\<close> is the module constant \<open>PROMPT_LIMIT_ENABLED\<close>.
\<close>

record limiter =
  max_prompts_per_user :: int
  reset_hours :: int
  user_prompts :: "string \<Rightarrow> real list"

definition new_limiter :: "int \<Rightarrow> int \<Rightarrow> limiter" where
  "new_limiter m h = \<lparr> max_prompts_per_user = m, reset_hours = h, user_prompts = (\<lambda>u. []) \<rparr>"

definition user_limiter :: limiter where
  "user_limiter = new_limiter 3 24"

fun popleft_while :: "real \<Rightarrow> real list \<Rightarrow> real list" where
  \<comment> \<open>\<open>while dq and dq[0] < cutoff_time: dq.popleft()\<close>\<close>
  "popleft_while cutoff_time [] = []"
| "popleft_while cutoff_time (t # ts) =
     (if t < cutoff_time then popleft_while cutoff_time ts else t # ts)"

definition cleanup_old_prompts :: "limiter \<Rightarrow> string \<Rightarrow> real \<Rightarrow> limiter" where
  "cleanup_old_prompts l user_id now =
     (let cutoff_time = now - real_of_int (reset_hours l * 3600)
      in l\<lparr>user_prompts := (user_prompts l)(user_id := popleft_while cutoff_time (user_prompts l user_id))\<rparr>)"

definition can_user_make_prompt ::
  "bool \<Rightarrow> limiter \<Rightarrow> string \<Rightarrow> real \<Rightarrow> (bool \<times> int \<times> int) \<times> limiter" where
  "can_user_make_prompt enabled l user_id now =
     (if \<not> enabled then ((True, 0, max_prompts_per_user l), l)
      else
        (let l' = cleanup_old_prompts l user_id now;
             prompts_used = int (length (user_prompts l' user_id));
             prompts_remaining = max 0 (max_prompts_per_user l' - prompts_used);
             can_make_prompt = (prompts_used < max_prompts_per_user l')
         in ((can_make_prompt, prompts_used, prompts_remaining), l')))"

definition record_prompt :: "bool \<Rightarrow> limiter \<Rightarrow> string \<Rightarrow> real \<Rightarrow> real \<Rightarrow> bool \<times> limiter" where
  \<comment> \<open>\<open>now\<close> is the reading inside the check, \<open>stamp\<close> the reading that is appended\<close>
  "record_prompt enabled l user_id now stamp =
     (case can_user_make_prompt enabled l user_id now of
        ((can_prompt, used, remaining), l') \<Rightarrow>
          if \<not> can_prompt then (False, l')
          else (True, l'\<lparr>user_prompts := (user_prompts l')(user_id := user_prompts l' user_id @ [stamp])\<rparr>))"

text \<open>
  A run of check-then-record rounds; a round takes three clock readings (the check, the
  check inside the record, the appended stamp).  It returns what each check and each record
  returned.
\<close>

fun rounds ::
  "bool \<Rightarrow> limiter \<Rightarrow> string \<Rightarrow> (real \<times> real \<times> real) list
     \<Rightarrow> ((bool \<times> int \<times> int) \<times> bool) list \<times> limiter" where
  "rounds enabled l user_id [] = ([], l)"
| "rounds enabled l user_id ((t1, t2, t3) # ts) =
     (case can_user_make_prompt enabled l user_id t1 of
        (checked, l1) \<Rightarrow>
          (case record_prompt enabled l1 user_id t2 t3 of
             (recorded, l2) \<Rightarrow>
               (case rounds enabled l2 user_id ts of
                  (rs, l3) \<Rightarrow> ((checked, recorded) # rs, l3))))"

text \<open>A run of records alone; each takes two clock readings.\<close>

fun records :: "bool \<Rightarrow> limiter \<Rightarrow> string \<Rightarrow> (real \<times> real) list \<Rightarrow> bool list \<times> limiter" where
  "records enabled l user_id [] = ([], l)"
| "records enabled l user_id ((t1, t2) # ts) =
     (case record_prompt enabled l user_id t1 t2 of
        (recorded, l1) \<Rightarrow>
          (case records enabled l1 user_id ts of
             (rs, l2) \<Rightarrow> (recorded # rs, l2)))"

definition times_of :: "(real \<times> real \<times> real) list \<Rightarrow> real list" where
  "times_of ts = concat (map (\<lambda>(t1, t2, t3). [t1, t2, t3]) ts)"

definition within_window :: "limiter \<Rightarrow> real \<Rightarrow> real list \<Rightarrow> bool" where
  \<comment> \<open>every reading lies in one reset window that starts at \<open>t0\<close>\<close>
  "within_window l t0 ts =
     list_all (\<lambda>t. t0 \<le> t \<and> t \<le> t0 + real_of_int (reset_hours l * 3600)) ts"

section \<open>The admission gate\<close>

text \<open>
  \<open>SimpleStatsTracker\<close>.  The embedding runs one request at a time: the permit of the
  semaphore and the lock are taken and given back inside \<open>add_request\<close>, and leave no trace
  in the state.  The wrapped operation is a function on its own state.
\<close>

record stats_tracker =
  total_requests :: int
  failed_requests :: int

definition new_tracker :: stats_tracker where
  "new_tracker = \<lparr> total_requests = 0, failed_requests = 0 \<rparr>"

definition add_request ::
  "stats_tracker \<Rightarrow> ('s \<Rightarrow> (exn + 'a) \<times> 's) \<Rightarrow> 's \<Rightarrow> (exn + 'a) \<times> stats_tracker \<times> 's" where
  "add_request q request_func st =
     (let q1 = q\<lparr>total_requests := total_requests q + 1\<rparr>
      in case request_func st of
           (Inr result, st') \<Rightarrow> (Inr result, q1, st')
         | (Inl e, st') \<Rightarrow>
             if is_Exception e
             then (Inl e, q1\<lparr>failed_requests := failed_requests q1 + 1\<rparr>, st')
             else (Inl e, q1, st'))"

datatype stat = Str_val string | Int_val int | Float_val real

definition get_stats :: "stats_tracker \<Rightarrow> string \<Rightarrow> (string \<times> stat) list" where
  \<comment> \<open>the dictionary, in the order of its keys; \<open>now\<close> is \<open>datetime.now().isoformat()\<close>.
      The success rate is the exact quotient, where the code computes a rounded double.\<close>
  "get_stats q now =
     [(''mode'', Str_val ''minimal_throttling''),
      (''total_requests'', Int_val (total_requests q)),
      (''failed_requests'', Int_val (failed_requests q)),
      (''success_rate'',
         Float_val (real_of_int (total_requests q - failed_requests q)
                / real_of_int (max (total_requests q) 1) * 100)),
      (''message'', Str_val ''Minimal throttling - 50 concurrent max to avoid OpenRouter 429s''),
      (''timestamp'', Str_val now)]"

section \<open>The route \<open>send_message\<close>\<close>

text \<open>
  The handler threads the three singletons.  The conversation store, the classifier and the
  clock are inputs.  \<open>cancelled\<close> says whether the deadline of \<open>asyncio.wait_for\<close> fires, and
  if so in which states the abandoned call leaves the tracker and the service.
\<close>

record app =
  quota :: limiter
  queue :: stats_tracker
  llm :: llm_service

record inputs =
  user_id :: string
  content :: string
  conversation_exists :: bool           \<comment> \<open>the first \<open>get_conversation\<close> finds it\<close>
  new_conversation_id :: string
  conversation_readable :: bool         \<comment> \<open>the second \<open>get_conversation\<close> finds it\<close>
  classification :: "string \<times> real"
  history :: "message list"             \<comment> \<open>the last six messages, as roles and contents\<close>
  subject :: "string option"
  cancelled :: "(stats_tracker \<times> llm_service) option"
  t_check1 :: real
  t_check2 :: real
  t_record :: real
  t_stamp :: real

record chat_response =
  response_content :: pystr
  response_emotion :: string
  response_confidence :: real

definition generate_response :: "world \<Rightarrow> call \<Rightarrow> llm_service \<Rightarrow> (exn + pystr) \<times> llm_service" where
  "generate_response w c s =
     (case create_empathetic_response w s c of (result, s', ev) \<Rightarrow> (result, s'))"

definition apology :: pystr where
  "apology = [Raw ''I apologize, but the response took too long. Please try again.'']"

definition send_message :: "bool \<Rightarrow> world \<Rightarrow> inputs \<Rightarrow> app \<Rightarrow> (exn + chat_response) \<times> app" where
  \<comment> \<open>every exception leaves through the outer handler as \<open>HTTPException(500)\<close>; the code
      after the inner \<open>try\<close> is never reached\<close>
  "send_message enabled w i a =
     (case can_user_make_prompt enabled (quota a) (user_id i) (t_check1 i) of
        ((can_prompt, used, remaining), l1) \<Rightarrow>
          if \<not> can_prompt then (Inl (HTTPException 500), a\<lparr>quota := l1\<rparr>)
          else
            (let warning = (if conversation_exists i then []
                            else [Warning_line (''Conversation not found. A new conversation was created (id: ''
                                                  @ new_conversation_id i @ '').'')])
             in case can_user_make_prompt enabled l1 (user_id i) (t_check2 i) of
                  ((can_prompt2, used2, remaining2), l2) \<Rightarrow>
                    if \<not> can_prompt2 then (Inl (HTTPException 500), a\<lparr>quota := l2\<rparr>)
                    else if \<not> conversation_readable i then (Inl (HTTPException 500), a\<lparr>quota := l2\<rparr>)
                    else
                      (let c = \<lparr> user_message = content i, emotion = fst (classification i),
                                  confidence = snd (classification i),
                                  context_messages = Some (history i),
                                  conversation_subject = subject i \<rparr>;
                           awaited =
                             (case cancelled i of
                                Some (q', s') \<Rightarrow> (Inl TimeoutError, q', s')
                              | None \<Rightarrow> add_request (queue a) (generate_response w c) (llm a))
                       in case awaited of
                            (outcome, q', s') \<Rightarrow>
                              (case (case outcome of
                                       Inr result \<Rightarrow> Inr result
                                     | Inl TimeoutError \<Rightarrow> Inr apology
                                     | Inl e \<Rightarrow> Inl e) of
                                 Inl e \<Rightarrow>
                                   (Inl (HTTPException 500), \<lparr>quota = l2, queue = q', llm = s'\<rparr>)
                               | Inr ai_content \<Rightarrow>
                                   (case record_prompt enabled l2 (user_id i) (t_record i) (t_stamp i) of
                                      (recorded, l3) \<Rightarrow>
                                        (Inr \<lparr> response_content = warning @ ai_content,
                                               response_emotion = fst (classification i),
                                               response_confidence = snd (classification i) \<rparr>,
                                         \<lparr>quota = l3, queue = q', llm = s'\<rparr>))))))"

section \<open>Sample inputs\<close>

definition three_keys :: llm_service where
  "three_keys = \<lparr> api_keys = [''k1'', ''k2'', ''k3''], current_key_index = 1,
                   models = default_models, last_used_model = None, last_used_key = None \<rparr>"

definition one_key :: llm_service where
  "one_key = \<lparr> api_keys = [''k1''], current_key_index = 0,
                 models = default_models, last_used_model = None, last_used_key = None \<rparr>"

definition no_keys :: llm_service where
  \<comment> \<open>the service constructed when none of the seven variables is set\<close>
  "no_keys = init [[], [], [], [], [], []] []"

definition downstream :: "(nat \<Rightarrow> outcome) \<Rightarrow> world" where
  \<comment> \<open>a simulated downstream that answers attempt \<open>n\<close> with \<open>f n\<close>, with fixed random draws\<close>
  "downstream f = \<lparr> uniform_initial = 0.1, choice_index = 7, uniform_rate = (\<lambda>n. 0.2),
                     uniform_conn = (\<lambda>n. 0.5), post = (\<lambda>n r. f n) \<rparr>"

definition sample_call :: call where
  "sample_call = \<lparr> user_message = ''apa itu fotosintesis'', emotion = ''Bingung'',
                    confidence = 0.9, context_messages = None, conversation_subject = None \<rparr>"

definition sample_inputs :: inputs where
  "sample_inputs = \<lparr> user_id = ''u1'', content = ''apa itu fotosintesis'',
      conversation_exists = True, new_conversation_id = [], conversation_readable = True,
      classification = (''Bingung'', 0.9), history = [], subject = None, cancelled = None,
      t_check1 = 100, t_check2 = 101, t_record = 102, t_stamp = 103 \<rparr>"

definition sample_app :: app where
  "sample_app = \<lparr> quota = user_limiter, queue = new_tracker, llm = one_key \<rparr>"

definition content_of :: "exn + chat_response \<Rightarrow> exn + pystr" where
  "content_of r = map_sum id response_content r"

definition reply_of :: "'a \<times> 'b \<times> 'c \<Rightarrow> 'a" where
  "reply_of x = fst x"

definition state_of :: "'a \<times> 'b \<times> 'c \<Rightarrow> 'b" where
  "state_of x = fst (snd x)"

definition events_of :: "'a \<times> 'b \<times> 'c \<Rightarrow> 'c" where
  "events_of x = snd (snd x)"

section \<open>Credential rotation: properties\<close>

lemma cyclic_Suc:
  "cyclic pool c (Suc n) = pool ! (c mod length pool) # cyclic pool (Suc c) n"
proof -
  have "[0..<Suc n] = 0 # map Suc [0..<n]"
    by (simp add: upt_conv_Cons map_Suc_upt del: upt_Suc)
  then show ?thesis
    by (simp add: cyclic_def comp_def del: upt_Suc)
qed

lemma cyclic_mod: "cyclic pool (c mod length pool) n = cyclic pool c n"
  by (simp add: cyclic_def mod_add_left_eq)

lemma get_next_api_key_ok:
  "api_keys s \<noteq> [] \<Longrightarrow> current_key_index s < length (api_keys s) \<Longrightarrow>
   get_next_api_key s =
     Inr (api_keys s ! current_key_index s,
          s\<lparr>current_key_index := Suc (current_key_index s) mod length (api_keys s)\<rparr>)"
  by (simp add: get_next_api_key_def)

lemma next_calls_cyclic:
  "api_keys s \<noteq> [] \<Longrightarrow> current_key_index s < length (api_keys s) \<Longrightarrow>
   next_calls n s =
     Inr (cyclic (api_keys s) (current_key_index s) n,
          s\<lparr>current_key_index := (current_key_index s + n) mod length (api_keys s)\<rparr>)"
proof (induction n arbitrary: s)
  case 0
  then show ?case by (simp add: cyclic_def)
next
  case (Suc n)
  let ?K = "length (api_keys s)"
  let ?c = "current_key_index s"
  let ?s' = "s\<lparr>current_key_index := Suc ?c mod ?K\<rparr>"
  have K: "0 < ?K" using Suc.prems by simp
  have ih: "next_calls n ?s' =
     Inr (cyclic (api_keys ?s') (current_key_index ?s') n,
          ?s'\<lparr>current_key_index := (current_key_index ?s' + n) mod length (api_keys ?s')\<rparr>)"
    by (rule Suc.IH) (use Suc.prems K in simp_all)
  have c1: "cyclic (api_keys s) (Suc ?c mod ?K) n = cyclic (api_keys s) (Suc ?c) n"
    by (rule cyclic_mod)
  have c2: "(Suc ?c mod ?K + n) mod ?K = Suc (?c + n) mod ?K"
    by (simp add: mod_add_left_eq)
  have c3: "cyclic (api_keys s) ?c (Suc n) = api_keys s ! ?c # cyclic (api_keys s) (Suc ?c) n"
    using Suc.prems by (simp add: cyclic_Suc)
  from ih have ih': "next_calls n ?s' =
     Inr (cyclic (api_keys s) (Suc ?c) n, s\<lparr>current_key_index := Suc (?c + n) mod ?K\<rparr>)"
    by (simp add: c1 c2)
  show ?case
    unfolding c3 using Suc.prems by (simp add: get_next_api_key_ok ih')
qed

section \<open>One logical request: properties\<close>

lemma rotations_append: "rotations (xs @ ys) = rotations xs @ rotations ys"
  by (induction xs rule: rotations.induct) simp_all

lemma posts_append: "posts (xs @ ys) = posts xs @ posts ys"
  by (induction xs rule: posts.induct) simp_all

lemma choices_append: "choices (xs @ ys) = choices xs @ choices ys"
  by (induction xs rule: choices.induct) simp_all

lemma delays_append: "delays (xs @ ys) = delays xs @ delays ys"
  by (induction xs rule: delays.induct) simp_all

lemma handle_events:
  "handle w c mx a r = (ctl, ev) \<Longrightarrow> rotations ev = [] \<and> posts ev = [] \<and> choices ev = []"
  by (auto simp: handle_def split: raised.splits if_splits)

lemma on_response_events:
  "on_response w c mx a key m s st b = (res, s', ev) \<Longrightarrow>
   rotations ev = [] \<and> posts ev = [] \<and> choices ev = [] \<and>
   api_keys s' = api_keys s \<and> current_key_index s' = current_key_index s \<and> models s' = models s"
  by (auto simp: on_response_def Let_def split: body.splits if_splits)

lemma try_block_first:
  "try_block w c msgs mx 0 cur m s = (res, key, s', ev) \<Longrightarrow>
   key = cur \<and> rotations ev = [] \<and> choices ev = [] \<and>
   posts ev = [\<lparr>authorization = cur, model = m, messages = msgs\<rparr>] \<and>
   api_keys s' = api_keys s \<and> current_key_index s' = current_key_index s \<and> models s' = models s"
  by (auto simp: try_block_def Let_def rotations_append posts_append choices_append
           split: outcome.splits prod.splits dest: on_response_events)

lemma try_block_later:
  "invariant s \<Longrightarrow> 0 < a \<Longrightarrow> try_block w c msgs mx a cur m s = (res, key, s', ev) \<Longrightarrow>
   key = api_keys s ! current_key_index s \<and> rotations ev = [key] \<and> choices ev = [] \<and>
   posts ev = [\<lparr>authorization = key, model = m, messages = msgs\<rparr>] \<and>
   api_keys s' = api_keys s \<and>
   current_key_index s' = Suc (current_key_index s) mod length (api_keys s) \<and>
   models s' = models s"
  by (auto simp: try_block_def Let_def invariant_def get_next_api_key_ok
                 rotations_append posts_append choices_append
           split: outcome.splits prod.splits dest: on_response_events)

lemma attempt_body_first:
  "attempt_body w c msgs mx 0 cur m s = (ctl, key, s', ev) \<Longrightarrow>
   key = cur \<and> rotations ev = [] \<and> choices ev = [] \<and>
   posts ev = [\<lparr>authorization = cur, model = m, messages = msgs\<rparr>] \<and>
   api_keys s' = api_keys s \<and> current_key_index s' = current_key_index s \<and> models s' = models s"
  by (auto simp: attempt_body_def rotations_append posts_append choices_append
           split: prod.splits sum.splits dest!: try_block_first handle_events)

lemma attempt_body_later:
  "invariant s \<Longrightarrow> 0 < a \<Longrightarrow> attempt_body w c msgs mx a cur m s = (ctl, key, s', ev) \<Longrightarrow>
   key = api_keys s ! current_key_index s \<and> rotations ev = [key] \<and> choices ev = [] \<and>
   posts ev = [\<lparr>authorization = key, model = m, messages = msgs\<rparr>] \<and>
   api_keys s' = api_keys s \<and>
   current_key_index s' = Suc (current_key_index s) mod length (api_keys s) \<and>
   models s' = models s"
  by (auto simp: attempt_body_def rotations_append posts_append choices_append
           split: prod.splits sum.splits dest!: try_block_later handle_events)

lemma cyclic_one: "c < length pool \<Longrightarrow> cyclic pool c (Suc 0) = [pool ! c]"
  by (simp add: cyclic_def)

lemma cyclic_0: "cyclic pool c 0 = []"
  by (simp add: cyclic_def)

lemma cyclic_step:
  "c < length pool \<Longrightarrow> pool ! c # cyclic pool (Suc c mod length pool) n = cyclic pool c (Suc n)"
  by (simp add: cyclic_Suc cyclic_mod)

lemma attempt_loop_done:
  "\<not> a < mx \<Longrightarrow>
   attempt_loop w c msgs mx m a cur s = (get_fallback_response (emotion c) (user_message c), s, [])"
  by (subst attempt_loop.simps) simp

lemma attempt_loop_unfold:
  "a < mx \<Longrightarrow> attempt_body w c msgs mx a cur m s = (ctl, key, s1, ev1) \<Longrightarrow>
   attempt_loop w c msgs mx m a cur s =
     (case ctl of
        Return t \<Rightarrow> (t, s1, ev1)
      | Continue \<Rightarrow>
          (case attempt_loop w c msgs mx m (Suc a) key s1 of
             (t, s2, ev2) \<Rightarrow> (t, s2, ev1 @ ev2)))"
  by (subst attempt_loop.simps) (simp split: control.splits)

lemma loop_shape:
  "invariant s \<Longrightarrow> 0 < a \<Longrightarrow> attempt_loop w c msgs mx m a cur s = (t, s', ev) \<Longrightarrow>
   \<exists>n. n \<le> mx - a \<and>
       rotations ev = cyclic (api_keys s) (current_key_index s) n \<and>
       posts ev = sent m msgs (cyclic (api_keys s) (current_key_index s) n) \<and>
       choices ev = [] \<and> api_keys s' = api_keys s \<and> models s' = models s \<and>
       current_key_index s' = (current_key_index s + n) mod length (api_keys s)"
proof (induction w c msgs mx m a cur s arbitrary: t s' ev rule: attempt_loop.induct)
  case (1 w c msgs mx m a cur s)
  let ?pool = "api_keys s" and ?c = "current_key_index s"
  have inv: "?pool \<noteq> []" "?c < length ?pool" "models s \<noteq> []"
    using "1.prems"(1) by (simp_all add: invariant_def)
  show ?case
  proof (cases "a < mx")
    case False
    with "1.prems"(3) have "ev = []" "s' = s" by (simp_all add: attempt_loop_done)
    then show ?thesis using inv by (intro exI [of _ 0]) (simp add: cyclic_0 sent_def)
  next
    case True
    obtain ctl key s1 ev1 where body: "attempt_body w c msgs mx a cur m s = (ctl, key, s1, ev1)"
      by (metis prod_cases4)
    note sh = attempt_body_later [OF "1.prems"(1,2) body]
    show ?thesis
    proof (cases ctl)
      case (Return t0)
      with attempt_loop_unfold [OF True body] "1.prems"(3) have "ev = ev1" "s' = s1" by simp_all
      then show ?thesis using sh inv True
        by (intro exI [of _ "Suc 0"]) (simp add: cyclic_one sent_def)
    next
      case Continue
      obtain t2 s2 ev2 where rest: "attempt_loop w c msgs mx m (Suc a) key s1 = (t2, s2, ev2)"
        by (metis prod_cases3)
      have inv1: "invariant s1" using sh inv by (simp add: invariant_def)
      from "1.IH" [OF True body [symmetric] _ refl refl inv1 _ rest] Continue
      obtain n where n: "n \<le> mx - Suc a"
         "rotations ev2 = cyclic (api_keys s1) (current_key_index s1) n"
         "posts ev2 = sent m msgs (cyclic (api_keys s1) (current_key_index s1) n)"
         "choices ev2 = []" "api_keys s2 = api_keys s1" "models s2 = models s1"
         "current_key_index s2 = (current_key_index s1 + n) mod length (api_keys s1)"
        by auto
      from attempt_loop_unfold [OF True body] Continue rest "1.prems"(3) have res: "ev = ev1 @ ev2" "s' = s2" by simp_all
      have idx: "(Suc ?c mod length ?pool + n) mod length ?pool = (?c + Suc n) mod length ?pool"
        by (simp add: mod_add_left_eq)
      show ?thesis
        using n sh inv True res idx
        by (intro exI [of _ "Suc n"])
           (simp add: rotations_append posts_append choices_append sent_def
                      cyclic_step [symmetric])
    qed
  qed
qed

lemma status_of_Some: "status_of x = Some st \<longleftrightarrow> (\<exists>b. x = Response st b)"
  by (cases x) auto

lemma attempt_body_5xx:
  assumes "\<forall>r. status_of (post w a r) = Some st" and "500 \<le> st" and "invariant s"
    and "attempt_body w c msgs mx a cur m s = (ctl, key, s', ev)"
  shows "ctl = (if a < mx - 1 then Continue else Return (generic_fallback c)) \<and>
         delays ev = (if a < mx - 1 then [base_delay * 2 ^ a] else [])"
proof -
  from assms(1) obtain b1 b2 where
    "post w a \<lparr>authorization = cur, model = m, messages = msgs\<rparr> = Response st b1"
    "post w a \<lparr>authorization = api_keys s ! current_key_index s, model = m, messages = msgs\<rparr>
       = Response st b2"
    unfolding status_of_Some by metis
  then show ?thesis
    using assms(2-)
    by (cases "0 < a")
       (auto simp: attempt_body_def try_block_def on_response_def invariant_def
                   get_next_api_key_def generic_fallback_def Let_def)
qed

lemma attempt_body_429:
  assumes "\<forall>r. status_of (post w a r) = Some 429" and "invariant s"
    and "attempt_body w c msgs mx a cur m s = (ctl, key, s', ev)"
  shows "ctl = (if a < mx - 1 then Continue else Return (get_rate_limit_fallback (emotion c))) \<and>
         delays ev = (if a < mx - 1 then [uniform_rate w a] else [])"
proof -
  from assms(1) obtain b1 b2 where
    "post w a \<lparr>authorization = cur, model = m, messages = msgs\<rparr> = Response 429 b1"
    "post w a \<lparr>authorization = api_keys s ! current_key_index s, model = m, messages = msgs\<rparr>
       = Response 429 b2"
    unfolding status_of_Some by metis
  then show ?thesis
    using assms(2-)
    by (cases "0 < a")
       (auto simp: attempt_body_def try_block_def on_response_def invariant_def
                   get_next_api_key_def Let_def)
qed

lemma attempt_body_other:
  assumes "\<forall>r. status_of (post w a r) = Some st" and "st \<noteq> 200" and "st \<noteq> 429" and "st < 500"
    and "invariant s"
    and "attempt_body w c msgs mx a cur m s = (ctl, key, s', ev)"
  shows "ctl = (if a < mx - 1 then Continue else Return (generic_fallback c)) \<and> delays ev = []"
proof -
  from assms(1) obtain b1 b2 where
    "post w a \<lparr>authorization = cur, model = m, messages = msgs\<rparr> = Response st b1"
    "post w a \<lparr>authorization = api_keys s ! current_key_index s, model = m, messages = msgs\<rparr>
       = Response st b2"
    unfolding status_of_Some by metis
  then show ?thesis
    using assms(2-)
    by (cases "0 < a")
       (auto simp: attempt_body_def try_block_def on_response_def invariant_def
                   get_next_api_key_def generic_fallback_def Let_def)
qed

lemma attempt_body_200:
  assumes "\<forall>r. post w a r = Response 200 (Content text)" and "invariant s"
    and "attempt_body w c msgs mx a cur m s = (ctl, key, s', ev)"
  shows "ctl = Return (live c text) \<and> delays ev = [] \<and>
         last_used_key s' = Some key \<and> last_used_model s' = Some m"
  using assms
  by (cases "0 < a")
     (auto simp: attempt_body_def try_block_def on_response_def invariant_def
                 get_next_api_key_def live_def Let_def)

lemma handle_text:
  "handle w c mx a r = (Return t, ev) \<Longrightarrow> t \<in> fallbacks c"
  by (auto simp: handle_def fallbacks_def split: raised.splits if_splits)

lemma on_response_text:
  "on_response w c mx a key m s st b = (Inr (Return t), s', ev) \<Longrightarrow>
   t \<in> fallbacks c \<or> (st = 200 \<and> (\<exists>text. b = Content text \<and> t = live c text))"
  by (auto simp: on_response_def fallbacks_def live_def Let_def split: body.splits if_splits)

lemma try_block_text:
  "try_block w c msgs mx a cur m s = (Inr (Return t), key, s', ev) \<Longrightarrow>
   t \<in> fallbacks c \<or> (\<exists>r text. post w a r = Response 200 (Content text) \<and> t = live c text)"
  by (auto simp: try_block_def Let_def split: sum.splits prod.splits outcome.splits if_splits
           dest!: on_response_text)

lemma attempt_body_text:
  "attempt_body w c msgs mx a cur m s = (Return t, key, s', ev) \<Longrightarrow>
   t \<in> fallbacks c \<or> (\<exists>r text. post w a r = Response 200 (Content text) \<and> t = live c text)"
  by (auto simp: attempt_body_def split: sum.splits prod.splits dest: handle_text try_block_text)

lemma loop_text:
  "attempt_loop w c msgs mx m a cur s = (t, s', ev) \<Longrightarrow>
   t \<in> fallbacks c \<or> (\<exists>n r text. post w n r = Response 200 (Content text) \<and> t = live c text)"
proof (induction w c msgs mx m a cur s arbitrary: t s' ev rule: attempt_loop.induct)
  case (1 w c msgs mx m a cur s)
  show ?case
  proof (cases "a < mx")
    case False
    with "1.prems" show ?thesis by (auto simp: fallbacks_def attempt_loop_done)
  next
    case True
    obtain ctl key s1 ev1 where body: "attempt_body w c msgs mx a cur m s = (ctl, key, s1, ev1)"
      by (metis prod_cases4)
    show ?thesis
    proof (cases ctl)
      case (Return t0)
      with attempt_loop_unfold [OF True body] "1.prems" have "t = t0" by simp
      with attempt_body_text [of w c msgs mx a cur m s t0 key s1 ev1] body Return
      show ?thesis by blast
    next
      case Continue
      obtain t2 s2 ev2 where rest: "attempt_loop w c msgs mx m (Suc a) key s1 = (t2, s2, ev2)"
        by (metis prod_cases3)
      from attempt_loop_unfold [OF True body] Continue rest "1.prems" have "t = t2" by simp
      with "1.IH" [OF True body [symmetric] _ refl refl rest] Continue show ?thesis by simp
    qed
  qed
qed

lemma attempt_body_one_post:
  assumes "invariant s" and "attempt_body w c msgs mx a cur m s = (ctl, key, s', ev)"
  shows "invariant s' \<and> length (posts ev) = 1 \<and> authorization (last (posts ev)) = key"
proof (cases "0 < a")
  case True
  from attempt_body_later [OF assms(1) True assms(2)] assms(1)
  show ?thesis by (simp add: invariant_def)
next
  case False
  with assms(2) have "attempt_body w c msgs mx 0 cur m s = (ctl, key, s', ev)" by simp
  from attempt_body_first [OF this] assms(1)
  show ?thesis by (simp add: invariant_def)
qed

lemma loop_5xx:
  "\<forall>n r. status_of (post w n r) = Some st \<Longrightarrow> 500 \<le> st \<Longrightarrow>
         invariant s \<Longrightarrow> attempt_loop w c msgs mx m a cur s = (t, s', ev) \<Longrightarrow>
         t = generic_fallback c \<and> length (posts ev) = mx - a \<and>
         delays ev = map (\<lambda>i. base_delay * 2 ^ i) [a..<mx - 1]"
proof (induction w c msgs mx m a cur s arbitrary: t s' ev rule: attempt_loop.induct)
  case (1 w c msgs mx m a cur s)
  have st: "\<forall>r. status_of (post w a r) = Some st"
    using "1.prems"(1) by simp
  show ?case
  proof (cases "a < mx")
    case False
    with "1.prems"(4) show ?thesis by (auto simp: generic_fallback_def attempt_loop_done)
  next
    case True
    obtain ctl key s1 ev1 where body: "attempt_body w c msgs mx a cur m s = (ctl, key, s1, ev1)"
      by (metis prod_cases4)
    note one = attempt_body_one_post [OF "1.prems"(3) body]
    note cls = attempt_body_5xx [OF st "1.prems"(2,3) body]
    show ?thesis
    proof (cases "a < mx - 1")
      case False
      with cls have ctl: "ctl = Return (generic_fallback c)" and d: "delays ev1 = []" by simp_all
      from attempt_loop_unfold [OF True body] ctl "1.prems"(4) have "t = generic_fallback c" "ev = ev1" by simp_all
      moreover from True False have "mx - a = 1" "[a..<mx - 1] = []" by simp_all
      ultimately show ?thesis using one d by simp
    next
      case less: True
      with cls have ctl: "ctl = Continue" and d: "delays ev1 = [base_delay * 2 ^ a]" by simp_all
      obtain t2 s2 ev2 where rest: "attempt_loop w c msgs mx m (Suc a) key s1 = (t2, s2, ev2)"
        by (metis prod_cases3)
      from attempt_loop_unfold [OF True body] ctl rest "1.prems"(4) have res: "t = t2" "ev = ev1 @ ev2" by simp_all
      from one have inv1: "invariant s1" by simp
      from "1.IH" [OF True body [symmetric] _ refl refl "1.prems"(1,2) inv1 rest] ctl
      have ih: "t2 = generic_fallback c" "length (posts ev2) = mx - Suc a"
               "delays ev2 = map (\<lambda>i. base_delay * 2 ^ i) [Suc a..<mx - 1]"
        by simp_all
      have "[a..<mx - 1] = a # [Suc a..<mx - 1]"
        using less by (simp add: upt_conv_Cons)
      then show ?thesis
        using res ih one d True by (simp add: posts_append delays_append)
    qed
  qed
qed

lemma loop_429_then_200:
  "\<forall>n r. n < mx - 1 \<longrightarrow> status_of (post w n r) = Some 429 \<Longrightarrow>
   \<forall>r. post w (mx - 1) r = Response 200 (Content text) \<Longrightarrow>
   invariant s \<Longrightarrow> a < mx \<Longrightarrow> attempt_loop w c msgs mx m a cur s = (t, s', ev) \<Longrightarrow>
   t = live c text \<and> length (posts ev) = mx - a \<and>
   last_used_key s' = Some (authorization (last (posts ev))) \<and> last_used_model s' = Some m \<and>
   delays ev = map (uniform_rate w) [a..<mx - 1]"
proof (induction w c msgs mx m a cur s arbitrary: t s' ev rule: attempt_loop.induct)
  case (1 w c msgs mx m a cur s)
  note True = \<open>a < mx\<close>
  obtain ctl key s1 ev1 where body: "attempt_body w c msgs mx a cur m s = (ctl, key, s1, ev1)"
    by (metis prod_cases4)
  note one = attempt_body_one_post [OF "1.prems"(3) body]
  show ?case
  proof (cases "a < mx - 1")
    case False
    with True have a: "a = mx - 1" by simp
    from "1.prems"(2) a have "\<forall>r. post w a r = Response 200 (Content text)" by simp
    from attempt_body_200 [OF this "1.prems"(3) body]
    have cls: "ctl = Return (live c text)" "delays ev1 = []"
      "last_used_key s1 = Some key" "last_used_model s1 = Some m" by simp_all
    from attempt_loop_unfold [OF True body] cls(1) "1.prems"(5) have "t = live c text" "ev = ev1" "s' = s1" by simp_all
    moreover from True a have "mx - a = 1" "[a..<mx - 1] = []" by simp_all
    ultimately show ?thesis using one cls by simp
  next
    case less: True
    with "1.prems"(1) have "\<forall>r. status_of (post w a r) = Some 429" by simp
    from attempt_body_429 [OF this "1.prems"(3) body] less
    have ctl: "ctl = Continue" and d: "delays ev1 = [uniform_rate w a]" by simp_all
    obtain t2 s2 ev2 where rest: "attempt_loop w c msgs mx m (Suc a) key s1 = (t2, s2, ev2)"
      by (metis prod_cases3)
    from attempt_loop_unfold [OF True body] ctl rest "1.prems"(5) have res: "t = t2" "ev = ev1 @ ev2" "s' = s2"
      by simp_all
    from one have inv1: "invariant s1" by simp
    from less have next_lt: "Suc a < mx" by simp
    from "1.IH" [OF True body [symmetric] _ refl refl "1.prems"(1,2) inv1 next_lt rest] ctl
    have ih: "t2 = live c text" "length (posts ev2) = mx - Suc a"
             "last_used_key s2 = Some (authorization (last (posts ev2)))"
             "last_used_model s2 = Some m"
             "delays ev2 = map (uniform_rate w) [Suc a..<mx - 1]"
      by simp_all
    from ih(2) next_lt have ne: "posts ev2 \<noteq> []" by auto
    have "[a..<mx - 1] = a # [Suc a..<mx - 1]"
      using less by (simp add: upt_conv_Cons)
    then show ?thesis
      using res ih one d True ne by (simp add: posts_append delays_append)
  qed
qed

lemma random_choice_ok:
  "xs \<noteq> [] \<Longrightarrow> random_choice xs i = Inr (xs ! (i mod length xs))"
  by (simp add: random_choice_def)

lemma create_unfold:
  assumes "invariant s"
  shows "create_empathetic_response w s c =
     (case attempt_loop w c (build_messages c) (length (api_keys s) * 2)
             (models s ! (choice_index w mod length (models s))) 0
             (api_keys s ! current_key_index s)
             (s\<lparr>current_key_index := Suc (current_key_index s) mod length (api_keys s)\<rparr>) of
        (t, s2, ev) \<Rightarrow>
          (Inr t, s2,
           [Async_sleep (uniform_initial w), Next_key (api_keys s ! current_key_index s),
            Choice (models s ! (choice_index w mod length (models s)))] @ ev))"
  using assms
  by (simp add: create_empathetic_response_def invariant_def get_next_api_key_ok
                random_choice_ok Let_def)

lemma loop_shape0:
  assumes "invariant s" and "0 < mx" and "attempt_loop w c msgs mx m 0 cur s = (t, s', ev)"
  shows "\<exists>n. n < mx \<and>
       rotations ev = cyclic (api_keys s) (current_key_index s) n \<and>
       posts ev = sent m msgs (cur # cyclic (api_keys s) (current_key_index s) n) \<and>
       choices ev = [] \<and> api_keys s' = api_keys s \<and> models s' = models s \<and>
       current_key_index s' = (current_key_index s + n) mod length (api_keys s)"
proof -
  obtain ctl key s1 ev1 where body: "attempt_body w c msgs mx 0 cur m s = (ctl, key, s1, ev1)"
    by (metis prod_cases4)
  note sh = attempt_body_first [OF body]
  have inv: "current_key_index s < length (api_keys s)"
    using assms(1) by (simp add: invariant_def)
  show ?thesis
  proof (cases ctl)
    case (Return t0)
    with attempt_loop_unfold [OF assms(2) body] assms(3) have "ev = ev1" "s' = s1" by simp_all
    then show ?thesis using sh assms(2) inv
      by (intro exI [of _ 0]) (simp add: cyclic_0 sent_def)
  next
    case Continue
    obtain t2 s2 ev2 where rest: "attempt_loop w c msgs mx m (Suc 0) key s1 = (t2, s2, ev2)"
      by (metis prod_cases3)
    from attempt_loop_unfold [OF assms(2) body] Continue rest assms(3) have res: "ev = ev1 @ ev2" "s' = s2" by simp_all
    have inv1: "invariant s1" using sh assms(1) by (simp add: invariant_def)
    from loop_shape [OF inv1 _ rest] obtain n where n: "n \<le> mx - Suc 0"
       "rotations ev2 = cyclic (api_keys s1) (current_key_index s1) n"
       "posts ev2 = sent m msgs (cyclic (api_keys s1) (current_key_index s1) n)"
       "choices ev2 = []" "api_keys s2 = api_keys s1" "models s2 = models s1"
       "current_key_index s2 = (current_key_index s1 + n) mod length (api_keys s1)"
      by auto
    show ?thesis
    proof (cases "n = 0")
      case True
      then show ?thesis using n sh res assms(2)
        by (intro exI [of _ 0])
           (simp add: rotations_append posts_append choices_append cyclic_0 sent_def)
    next
      case False
      with n(1) have "n < mx" by simp
      then show ?thesis using n sh res
        by (intro exI [of _ n])
           (simp add: rotations_append posts_append choices_append sent_def)
    qed
  qed
qed

lemma create_shape:
  assumes "invariant s" and "create_empathetic_response w s c = (r, s', ev)"
  shows "\<exists>t n ev'. r = Inr t \<and> 0 < n \<and> n \<le> length (api_keys s) * 2 \<and>
       ev = [Async_sleep (uniform_initial w), Next_key (api_keys s ! current_key_index s),
             Choice (models s ! (choice_index w mod length (models s)))] @ ev' \<and>
       attempt_loop w c (build_messages c) (length (api_keys s) * 2)
             (models s ! (choice_index w mod length (models s))) 0
             (api_keys s ! current_key_index s)
             (s\<lparr>current_key_index := Suc (current_key_index s) mod length (api_keys s)\<rparr>)
         = (t, s', ev') \<and>
       rotations ev = cyclic (api_keys s) (current_key_index s) n \<and>
       posts ev = sent (models s ! (choice_index w mod length (models s))) (build_messages c)
                    (cyclic (api_keys s) (current_key_index s) n) \<and>
       choices ev' = [] \<and> api_keys s' = api_keys s \<and> models s' = models s \<and>
       current_key_index s' = (current_key_index s + n) mod length (api_keys s)"
proof -
  let ?K = "length (api_keys s)" and ?c = "current_key_index s"
  let ?m = "models s ! (choice_index w mod length (models s))"
  let ?s1 = "s\<lparr>current_key_index := Suc ?c mod ?K\<rparr>"
  have inv: "api_keys s \<noteq> []" "?c < ?K" using assms(1) by (simp_all add: invariant_def)
  have inv1: "invariant ?s1" using assms(1) by (simp add: invariant_def)
  obtain t s2 ev' where loop:
    "attempt_loop w c (build_messages c) (?K * 2) ?m 0 (api_keys s ! ?c) ?s1 = (t, s2, ev')"
    by (metis prod_cases3)
  from assms(2) create_unfold [OF assms(1), of w c] loop
  have res: "r = Inr t" "s' = s2"
    "ev = [Async_sleep (uniform_initial w), Next_key (api_keys s ! ?c), Choice ?m] @ ev'"
    by simp_all
  have mx: "0 < ?K * 2" using inv by simp
  from loop_shape0 [OF inv1 mx loop] obtain n where n: "n < ?K * 2"
     "rotations ev' = cyclic (api_keys s) (Suc ?c mod ?K) n"
     "posts ev' = sent ?m (build_messages c) (api_keys s ! ?c # cyclic (api_keys s) (Suc ?c mod ?K) n)"
     "choices ev' = []" "api_keys s2 = api_keys s" "models s2 = models s"
     "current_key_index s2 = (Suc ?c mod ?K + n) mod ?K"
    by auto
  have idx: "(Suc ?c mod ?K + n) mod ?K = (?c + Suc n) mod ?K"
    by (simp add: mod_add_left_eq)
  show ?thesis
    using n res loop inv idx
    by (intro exI [of _ t] exI [of _ "Suc n"] exI [of _ ev'])
       (simp add: cyclic_step)
qed

lemma sorted_backoff: "sorted (map (\<lambda>i. base_delay * 2 ^ i) [a..<b])"
proof -
  have "mono (\<lambda>i::nat. base_delay * 2 ^ i)"
    by (rule monoI) (simp add: base_delay_def)
  then show ?thesis
    by (simp add: sorted_map mono_def sorted_wrt_iff_nth_less)
qed

lemma loop_starts_with_post:
  assumes "0 < mx" and "attempt_loop w c msgs mx m 0 cur s = (t, s', ev)"
  shows "\<exists>r rest. ev = Post r # rest"
proof -
  obtain ctl key s1 ev1 where body: "attempt_body w c msgs mx 0 cur m s = (ctl, key, s1, ev1)"
    by (metis prod_cases4)
  then have "\<exists>r rest. ev1 = Post r # rest"
    by (auto simp: attempt_body_def try_block_def Let_def
             split: prod.splits sum.splits outcome.splits)
  moreover have "\<exists>rest. ev = ev1 @ rest"
    using attempt_loop_unfold [OF assms(1) body] assms(2)
    by (cases ctl) (auto split: prod.splits)
  ultimately show ?thesis by auto
qed


text \<open>
  C1, as amended.  On a service with a non-empty pool (the cursor inside it and a model to
  draw), and for every behaviour of the downstream on every attempt, the request raises
  nothing and returns a text: one of the four fallbacks, or the reply built from the content
  of a \<open>200\<close> response.
\<close>

theorem dispatch_returns_text:
  assumes "invariant s"
  shows "\<exists>t s' ev. create_empathetic_response w s c = (Inr t, s', ev) \<and>
           (t \<in> fallbacks c \<or>
            (\<exists>n r text. post w n r = Response 200 (Content text) \<and> t = live c text))"
proof -
  obtain r s' ev where run: "create_empathetic_response w s c = (r, s', ev)"
    by (metis prod_cases3)
  from create_shape [OF assms run] obtain t ev' where
    "r = Inr t"
    "attempt_loop w c (build_messages c) (length (api_keys s) * 2)
       (models s ! (choice_index w mod length (models s))) 0
       (api_keys s ! current_key_index s)
       (s\<lparr>current_key_index := Suc (current_key_index s) mod length (api_keys s)\<rparr>)
     = (t, s', ev')"
    by blast
  with loop_text [OF this(2)] run show ?thesis by blast
qed

theorem dispatch_returns_text_witness:
  "invariant three_keys \<and>
   reply_of (create_empathetic_response (downstream (\<lambda>n. if n < 2 then Timeout else Response 200 (Content ''Halo ''))) three_keys sample_call)
     = Inr [Raw ''Halo'', Emotion_ack ''Bingung'' ''bingung'', Learning_tip ''Bingung'']"
  using dispatch_returns_text [of three_keys "downstream (\<lambda>n. if n < 2 then Timeout else Response 200 (Content ''Halo ''))" sample_call]
  by (simp add: create_empathetic_response_def three_keys_def sample_call_def downstream_def
     get_next_api_key_def random_choice_def default_models_def build_messages_def
     attempt_body_def try_block_def on_response_def handle_def attempt_loop.simps
     enhance_educational_response_def strip_def is_space_def
     template_key_def emotions_def lower_def lower_char_def Let_def reply_of_def invariant_def)

text \<open>
  With no key configured the constructor leaves the pool empty, and the request raises
  \<open>No API keys available\<close> from the lookup before the loop, outside every \<open>try\<close>.
\<close>

theorem empty_pool_raises_counterexample:
  "create_empathetic_response (downstream (\<lambda>n. Response 200 (Content ''Halo''))) no_keys sample_call
     = (Inl NoApiKeys, no_keys, [Async_sleep 0.1])"
  by (simp add: create_empathetic_response_def no_keys_def init_def strip_def downstream_def
                get_next_api_key_def)

lemma length_cyclic: "length (cyclic pool c n) = n"
  by (simp add: cyclic_def)

lemma length_sent: "length (sent m msgs ks) = length ks"
  by (simp add: sent_def)

lemma authorization_sent: "map authorization (sent m msgs ks) = ks"
  by (simp add: sent_def comp_def)

lemma model_sent: "q \<in> set (sent m msgs ks) \<Longrightarrow> model q = m"
  by (auto simp: sent_def)







text \<open>
  C4.  With a pool of K \<open>\<ge>\<close> 1 keys and a downstream that answers \<open>500\<close> on every attempt,
  the request makes exactly 2 * K outbound calls, returns the generic fallback, and the
  delays slept between the attempts are \<open>base_delay * 2 ^ i\<close> for i = 0, ..., 2 * K - 2,
  a non-decreasing sequence.
\<close>

theorem always_500_exhausts:
  assumes "invariant s" and "\<forall>n r. status_of (post w n r) = Some 500"
  shows "\<exists>s' ev. create_empathetic_response w s c = (Inr (generic_fallback c), s', ev) \<and>
           length (posts ev) = length (api_keys s) * 2 \<and>
           backoff_delays ev = map (\<lambda>i. base_delay * 2 ^ i) [0..<length (api_keys s) * 2 - 1] \<and>
           sorted (backoff_delays ev)"
proof -
  let ?mx = "length (api_keys s) * 2"
  obtain r s' ev where run: "create_empathetic_response w s c = (r, s', ev)"
    by (metis prod_cases3)
  from create_shape [OF assms(1) run] obtain t ev' where sh:
    "r = Inr t"
    "ev = [Async_sleep (uniform_initial w), Next_key (api_keys s ! current_key_index s),
           Choice (models s ! (choice_index w mod length (models s)))] @ ev'"
    "attempt_loop w c (build_messages c) ?mx
       (models s ! (choice_index w mod length (models s))) 0
       (api_keys s ! current_key_index s)
       (s\<lparr>current_key_index := Suc (current_key_index s) mod length (api_keys s)\<rparr>)
     = (t, s', ev')"
    by blast
  have inv1: "invariant (s\<lparr>current_key_index := Suc (current_key_index s) mod length (api_keys s)\<rparr>)"
    using assms(1) by (simp add: invariant_def)
  have mx: "0 < ?mx" using assms(1) by (simp add: invariant_def)
  from loop_5xx [OF assms(2) _ inv1 sh(3)]
  have l: "t = generic_fallback c" "length (posts ev') = ?mx"
          "delays ev' = map (\<lambda>i. base_delay * 2 ^ i) [0..<?mx - 1]"
    by simp_all
  from loop_starts_with_post [OF mx sh(3)] obtain q rest where "ev' = Post q # rest" by blast
  with sh(2) have "backoff_delays ev = delays ev'"
    by (simp add: backoff_delays_def)
  with l sh run show ?thesis
    by (simp add: sorted_backoff)
qed

theorem always_500_exhausts_witness:
  "invariant three_keys \<and>
   (\<forall>n r. status_of (post (downstream (\<lambda>n. Response 500 No_json)) n r) = Some 500) \<and>
   (\<exists>s' ev. create_empathetic_response (downstream (\<lambda>n. Response 500 No_json)) three_keys sample_call
              = (Inr [Fallback Generic ''Bingung''], s', ev) \<and>
            length (posts ev) = 6 \<and> backoff_delays ev = [0.5, 1, 2, 4, 8] \<and>
            sorted (backoff_delays ev))"
  using always_500_exhausts [of three_keys "downstream (\<lambda>n. Response 500 No_json)" sample_call]
  by (simp add: downstream_def invariant_def three_keys_def default_models_def
                generic_fallback_def get_fallback_response_def sample_call_def
                template_key_def emotions_def lower_def lower_char_def base_delay_def
                upt_conv_Cons)

text \<open>
  C5, as amended.  With a downstream that answers \<open>429\<close> on the first 2 * K - 1 attempts
  and \<open>200\<close> with a content on the last, the request returns the live reply; the rotator
  is looked up exactly 2 * K times, each call carries the key of its own lookup, the key
  recorded as last used is the one of the last attempt, and the cursor is back where it
  started.
\<close>

theorem rate_limited_then_success:
  assumes "invariant s"
    and "\<forall>n r. n < length (api_keys s) * 2 - 1 \<longrightarrow> status_of (post w n r) = Some 429"
    and "\<forall>r. post w (length (api_keys s) * 2 - 1) r = Response 200 (Content text)"
  shows "\<exists>s' ev. create_empathetic_response w s c = (Inr (live c text), s', ev) \<and>
           length (posts ev) = length (api_keys s) * 2 \<and>
           length (rotations ev) = length (api_keys s) * 2 \<and>
           rotations ev = cyclic (api_keys s) (current_key_index s) (length (api_keys s) * 2) \<and>
           map authorization (posts ev) = rotations ev \<and>
           last_used_key s' = Some (last (rotations ev)) \<and>
           last_used_key s' = Some (authorization (last (posts ev))) \<and>
           current_key_index s' = current_key_index s"
proof -
  let ?K = "length (api_keys s)"
  let ?mx = "?K * 2"
  let ?m = "models s ! (choice_index w mod length (models s))"
  let ?s1 = "s\<lparr>current_key_index := Suc (current_key_index s) mod ?K\<rparr>"
  obtain r s' ev where run: "create_empathetic_response w s c = (r, s', ev)"
    by (metis prod_cases3)
  from create_shape [OF assms(1) run] obtain t n ev' where sh:
    "r = Inr t"
    "ev = [Async_sleep (uniform_initial w), Next_key (api_keys s ! current_key_index s),
           Choice ?m] @ ev'"
    "attempt_loop w c (build_messages c) ?mx ?m 0 (api_keys s ! current_key_index s) ?s1
     = (t, s', ev')"
    "rotations ev = cyclic (api_keys s) (current_key_index s) n"
    "posts ev = sent ?m (build_messages c) (cyclic (api_keys s) (current_key_index s) n)"
    "current_key_index s' = (current_key_index s + n) mod ?K"
    by blast
  have inv1: "invariant ?s1" using assms(1) by (simp add: invariant_def)
  have inv: "current_key_index s < ?K" "0 < ?K" using assms(1) by (simp_all add: invariant_def)
  then have mx: "0 < ?mx" by simp
  from loop_429_then_200 [OF assms(2,3) inv1 mx sh(3)]
  have l: "t = live c text" "length (posts ev') = ?mx"
          "last_used_key s' = Some (authorization (last (posts ev')))"
    by simp_all
  from sh(2) have pe: "posts ev = posts ev'" by simp
  with l(2) sh(5) have n: "n = ?mx"
    by (simp add: length_sent length_cyclic)
  from pe l(2) mx have ne: "posts ev \<noteq> []" by auto
  have auth: "map authorization (posts ev) = rotations ev"
    using sh(4,5) by (simp add: authorization_sent)
  from ne have "authorization (last (posts ev)) = last (map authorization (posts ev))"
    by (simp add: last_map)
  with auth have lst: "authorization (last (posts ev)) = last (rotations ev)" by simp
  have idx: "(current_key_index s + ?mx) mod ?K = current_key_index s"
    using inv by simp
  show ?thesis
    using run sh(1,4,6) l n pe auth lst idx
    by (simp add: length_cyclic)
qed

theorem rate_limited_then_success_witness:
  "invariant three_keys \<and>
   status_of (post (downstream (\<lambda>n. if n < 5 then Response 429 No_json
                                      else Response 200 (Content ''Halo'')))
                4 \<lparr>authorization = ''k3'', model = ''m'', messages = []\<rparr>) = Some 429 \<and>
   (\<exists>s' ev. create_empathetic_response
               (downstream (\<lambda>n. if n < 5 then Response 429 No_json
                                 else Response 200 (Content ''Halo''))) three_keys sample_call
              = (Inr [Raw ''Halo'', Emotion_ack ''Bingung'' ''bingung'', Learning_tip ''Bingung''],
                 s', ev) \<and>
            length (rotations ev) = 6 \<and>
            rotations ev = [''k2'', ''k3'', ''k1'', ''k2'', ''k3'', ''k1''] \<and>
            map authorization (posts ev) = rotations ev \<and>
            last_used_key s' = Some ''k1'' \<and> current_key_index s' = 1)"
  using rate_limited_then_success
          [of three_keys "downstream (\<lambda>n. if n < 5 then Response 429 No_json
                                            else Response 200 (Content ''Halo''))" "''Halo''"
              sample_call]
  by (auto simp: downstream_def invariant_def three_keys_def default_models_def
                live_def enhance_educational_response_def strip_def is_space_def
                sample_call_def template_key_def emotions_def lower_def lower_char_def
                cyclic_def upt_conv_Cons)

text \<open>
  Only the status \<open>200\<close> is a success: a last attempt answered \<open>201\<close> with a content ends
  in the generic fallback.
\<close>

theorem created_status_counterexample:
  "reply_of (create_empathetic_response
      (downstream (\<lambda>n. if n < 1 then Response 429 No_json else Response 201 (Content ''Halo'')))
      one_key sample_call) = Inr (generic_fallback sample_call) \<and>
   generic_fallback sample_call \<noteq> live sample_call ''Halo'' \<and>
   length (posts (events_of (create_empathetic_response
      (downstream (\<lambda>n. if n < 1 then Response 429 No_json else Response 201 (Content ''Halo'')))
      one_key sample_call))) = length (api_keys one_key) * 2"
  by (simp add: create_empathetic_response_def one_key_def sample_call_def downstream_def
     get_next_api_key_def random_choice_def default_models_def build_messages_def
     attempt_body_def try_block_def on_response_def handle_def attempt_loop.simps
     generic_fallback_def get_fallback_response_def live_def enhance_educational_response_def
     template_key_def emotions_def lower_def lower_char_def
     reply_of_def events_of_def Let_def)

text \<open>
  C6.  For a non-empty pool of size K and a cursor in [0, K), N successive calls of
  \<open>get_next_api_key\<close> raise nothing and return the pool read cyclically from the cursor,
  and the cursor after the N calls is again in [0, K), for every N.  The lookup takes no
  attempt outcome as input; accordingly, whatever the downstream does on each attempt of a
  request, the keys handed out during the request are the pool read cyclically from the
  cursor, none skipped.
\<close>

theorem rotation_is_cyclic:
  assumes "api_keys s \<noteq> []" and "current_key_index s < length (api_keys s)"
  shows "next_calls N s =
           Inr (cyclic (api_keys s) (current_key_index s) N,
                s\<lparr>current_key_index := (current_key_index s + N) mod length (api_keys s)\<rparr>)
         \<and> (current_key_index s + N) mod length (api_keys s) < length (api_keys s)
         \<and> (models s \<noteq> [] \<longrightarrow>
              rotations (events_of (create_empathetic_response w s c))
                = cyclic (api_keys s) (current_key_index s)
                    (length (rotations (events_of (create_empathetic_response w s c)))))"
proof -
  have "rotations (events_of (create_empathetic_response w s c))
          = cyclic (api_keys s) (current_key_index s)
              (length (rotations (events_of (create_empathetic_response w s c))))"
    if m: "models s \<noteq> []"
  proof -
    have inv: "invariant s" using assms m by (simp add: invariant_def)
    obtain r s' ev where run: "create_empathetic_response w s c = (r, s', ev)"
      by (metis prod_cases3)
    from create_shape [OF inv run] obtain n where
      "rotations ev = cyclic (api_keys s) (current_key_index s) n"
      by blast
    then show ?thesis
      using run by (simp add: events_of_def length_cyclic)
  qed
  then show ?thesis
    using assms next_calls_cyclic [of s N] by simp
qed

theorem rotation_is_cyclic_witness:
  "next_calls 5 three_keys =
     Inr ([''k2'', ''k3'', ''k1'', ''k2'', ''k3''], three_keys\<lparr>current_key_index := 0\<rparr>) \<and>
   rotations (events_of (create_empathetic_response
       (downstream (\<lambda>n. if n < 3 then ConnectionError else Response 200 (Content ''Halo'')))
       three_keys sample_call))
     = [''k2'', ''k3'', ''k1'', ''k2'']"
  using rotation_is_cyclic
          [of three_keys 5
              "downstream (\<lambda>n. if n < 3 then ConnectionError else Response 200 (Content ''Halo''))"
              sample_call]
  by (simp add: create_empathetic_response_def three_keys_def sample_call_def downstream_def
     get_next_api_key_def random_choice_def default_models_def build_messages_def
     attempt_body_def try_block_def on_response_def handle_def attempt_loop.simps
     events_of_def cyclic_def upt_conv_Cons Let_def)

text \<open>
  C7.  Within one request the model is drawn exactly once, before any outbound call; every
  outbound call carries that model, and the keys of the calls are the pool read cyclically
  from the cursor.
\<close>

theorem model_selected_once:
  assumes "invariant s"
  shows "let m = models s ! (choice_index w mod length (models s));
             ev = events_of (create_empathetic_response w s c)
         in choices ev = [m] \<and>
            posts (takeWhile (\<lambda>e. e \<noteq> Choice m) ev) = [] \<and>
            posts ev \<noteq> [] \<and>
            (\<forall>q \<in> set (posts ev). model q = m) \<and>
            map authorization (posts ev)
              = cyclic (api_keys s) (current_key_index s) (length (posts ev))"
proof -
  let ?m = "models s ! (choice_index w mod length (models s))"
  obtain r s' ev where run: "create_empathetic_response w s c = (r, s', ev)"
    by (metis prod_cases3)
  from create_shape [OF assms run] obtain n ev' where sh:
    "0 < n"
    "ev = [Async_sleep (uniform_initial w), Next_key (api_keys s ! current_key_index s),
           Choice ?m] @ ev'"
    "posts ev = sent ?m (build_messages c) (cyclic (api_keys s) (current_key_index s) n)"
    "choices ev' = []"
    by blast
  from sh(2,4) have c1: "choices ev = [?m]" by simp
  from sh(2) have c2: "posts (takeWhile (\<lambda>e. e \<noteq> Choice ?m) ev) = []" by simp
  from sh(3) have c3: "\<forall>q \<in> set (posts ev). model q = ?m"
    by (auto dest: model_sent)
  from sh(3) have len: "length (posts ev) = n"
    by (simp add: length_sent length_cyclic)
  with sh(1) have c4: "posts ev \<noteq> []" by auto
  from sh(3) len have c5: "map authorization (posts ev)
      = cyclic (api_keys s) (current_key_index s) (length (posts ev))"
    by (simp add: authorization_sent)
  show ?thesis
    using run c1 c2 c3 c4 c5 by (simp add: events_of_def Let_def)
qed

theorem model_selected_once_witness:
  "invariant three_keys \<and>
   (let ev = events_of (create_empathetic_response
                 (downstream (\<lambda>n. if n < 2 then Timeout else Response 200 (Content ''Halo'')))
                 three_keys sample_call)
    in choices ev = [''deepseek/deepseek-r1-0528-qwen3-8b:free''] \<and>
       map model (posts ev) = [''deepseek/deepseek-r1-0528-qwen3-8b:free'',
                               ''deepseek/deepseek-r1-0528-qwen3-8b:free'',
                               ''deepseek/deepseek-r1-0528-qwen3-8b:free''] \<and>
       map authorization (posts ev) = [''k2'', ''k3'', ''k1''])"
  using model_selected_once
          [of three_keys "downstream (\<lambda>n. if n < 2 then Timeout else Response 200 (Content ''Halo''))"
              sample_call]
  by (simp add: create_empathetic_response_def three_keys_def sample_call_def downstream_def
     get_next_api_key_def random_choice_def default_models_def build_messages_def
     attempt_body_def try_block_def on_response_def handle_def attempt_loop.simps
     events_of_def invariant_def Let_def)


section \<open>Quota tracker, admission gate and route: properties\<close>

lemma popleft_while_keeps:
  "\<forall>e \<in> set h. cutoff \<le> e \<Longrightarrow> popleft_while cutoff h = h"
  by (cases h) auto

lemma cleanup_keeps:
  "\<forall>e \<in> set (user_prompts l u). now - real_of_int (reset_hours l * 3600) \<le> e \<Longrightarrow>
   cleanup_old_prompts l u now = l"
  by (simp add: cleanup_old_prompts_def popleft_while_keeps)

lemma check_keeps:
  assumes "\<forall>e \<in> set (user_prompts l u). now - real_of_int (reset_hours l * 3600) \<le> e"
  shows "can_user_make_prompt True l u now =
           ((int (length (user_prompts l u)) < max_prompts_per_user l,
             int (length (user_prompts l u)),
             max 0 (max_prompts_per_user l - int (length (user_prompts l u)))), l)"
  using assms by (simp add: can_user_make_prompt_def cleanup_keeps Let_def)

lemma record_keeps:
  assumes "\<forall>e \<in> set (user_prompts l u). now - real_of_int (reset_hours l * 3600) \<le> e"
    and "int (length (user_prompts l u)) < max_prompts_per_user l"
  shows "record_prompt True l u now stamp =
           (True, l\<lparr>user_prompts := (user_prompts l)(u := user_prompts l u @ [stamp])\<rparr>)"
  using assms by (simp add: record_prompt_def check_keeps)

lemma check_disabled:
  "can_user_make_prompt False l u now = ((True, 0, max_prompts_per_user l), l)"
  by (simp add: can_user_make_prompt_def)

lemma record_disabled:
  "record_prompt False l u now stamp =
     (True, l\<lparr>user_prompts := (user_prompts l)(u := user_prompts l u @ [stamp])\<rparr>)"
  by (simp add: record_prompt_def check_disabled)

lemma records_disabled:
  "fst (records False l u ts) = replicate (length ts) True \<and>
   user_prompts (snd (records False l u ts)) u = user_prompts l u @ map snd ts \<and>
   max_prompts_per_user (snd (records False l u ts)) = max_prompts_per_user l \<and>
   reset_hours (snd (records False l u ts)) = reset_hours l"
proof (induction ts arbitrary: l)
  case Nil
  then show ?case by simp
next
  case (Cons p ts)
  obtain t1 t2 where p: "p = (t1, t2)" by (cases p)
  let ?l1 = "l\<lparr>user_prompts := (user_prompts l)(u := user_prompts l u @ [t2])\<rparr>"
  from Cons.IH [of ?l1] show ?case
    by (simp add: p record_disabled case_prod_unfold)
qed

lemma rounds_allowed:
  assumes "list_all (\<lambda>t. t0 \<le> t \<and> t \<le> t0 + real_of_int (reset_hours l * 3600)) (times_of ts)"
    and "\<forall>e \<in> set (user_prompts l u). t0 \<le> e"
    and "int (length (user_prompts l u)) + int (length ts) \<le> max_prompts_per_user l"
  shows "map fst (fst (rounds True l u ts)) =
           map (\<lambda>i. (True, int i, max_prompts_per_user l - int i))
               [length (user_prompts l u)..<length (user_prompts l u) + length ts] \<and>
         map snd (fst (rounds True l u ts)) = replicate (length ts) True \<and>
         user_prompts (snd (rounds True l u ts)) u
           = user_prompts l u @ map (\<lambda>(t1, t2, t3). t3) ts \<and>
         max_prompts_per_user (snd (rounds True l u ts)) = max_prompts_per_user l \<and>
         reset_hours (snd (rounds True l u ts)) = reset_hours l"
  using assms
proof (induction ts arbitrary: l)
  case Nil
  then show ?case by simp
next
  case (Cons p ts)
  obtain t1 t2 t3 where p: "p = (t1, t2, t3)" by (cases p)
  let ?h = "user_prompts l u"
  let ?W = "real_of_int (reset_hours l * 3600)"
  let ?l2 = "l\<lparr>user_prompts := (user_prompts l)(u := ?h @ [t3])\<rparr>"
  from Cons.prems(1) p have t: "t0 \<le> t1" "t1 \<le> t0 + ?W" "t0 \<le> t2" "t2 \<le> t0 + ?W" "t0 \<le> t3"
    and rest: "list_all (\<lambda>t. t0 \<le> t \<and> t \<le> t0 + ?W) (times_of ts)"
    by (simp_all add: times_of_def)
  have k1: "\<forall>e \<in> set ?h. t1 - ?W \<le> e" using Cons.prems(2) t by fastforce
  have k2: "\<forall>e \<in> set ?h. t2 - ?W \<le> e" using Cons.prems(2) t by fastforce
  have lt: "int (length ?h) < max_prompts_per_user l" using Cons.prems(3) by simp
  have chk: "can_user_make_prompt True l u t1 =
      ((True, int (length ?h), max_prompts_per_user l - int (length ?h)), l)"
    using check_keeps [OF k1] lt by simp
  have rec: "record_prompt True l u t2 t3 = (True, ?l2)"
    using record_keeps [OF k2 lt] .
  have ih: "map fst (fst (rounds True ?l2 u ts)) =
           map (\<lambda>i. (True, int i, max_prompts_per_user ?l2 - int i))
               [length (user_prompts ?l2 u)..<length (user_prompts ?l2 u) + length ts] \<and>
         map snd (fst (rounds True ?l2 u ts)) = replicate (length ts) True \<and>
         user_prompts (snd (rounds True ?l2 u ts)) u
           = user_prompts ?l2 u @ map (\<lambda>(t1, t2, t3). t3) ts \<and>
         max_prompts_per_user (snd (rounds True ?l2 u ts)) = max_prompts_per_user ?l2 \<and>
         reset_hours (snd (rounds True ?l2 u ts)) = reset_hours ?l2"
  proof (rule Cons.IH)
    show "list_all (\<lambda>t. t0 \<le> t \<and> t \<le> t0 + real_of_int (reset_hours ?l2 * 3600)) (times_of ts)"
      using rest by simp
    show "\<forall>e \<in> set (user_prompts ?l2 u). t0 \<le> e"
      using Cons.prems(2) t by simp
    show "int (length (user_prompts ?l2 u)) + int (length ts) \<le> max_prompts_per_user ?l2"
      using Cons.prems(3) by simp
  qed
  have upt: "[length ?h..<length ?h + length (p # ts)]
      = length ?h # [Suc (length ?h)..<Suc (length ?h) + length ts]"
    by (simp add: upt_conv_Cons del: upt_Suc)
  show ?case
    unfolding upt using ih by (simp add: p chk rec case_prod_unfold del: upt_Suc)
qed

text \<open>
  C8.  With enforcement on, an identity with an empty window, and every clock reading inside
  one reset window: \<open>max_prompts_per_user\<close> rounds of check-then-record are all allowed
  (the i-th check reports i prompts used, starting at 0) and all recorded, and the next
  check reports not allowed, \<open>max_prompts_per_user\<close> used, 0 remaining.
\<close>

theorem quota_exhausts_after_max:
  assumes "user_prompts l u = []"
    and "int (length ts) = max_prompts_per_user l"
    and "within_window l t0 (T # times_of ts)"
  shows "map fst (fst (rounds True l u ts)) =
           map (\<lambda>i. (True, int i, max_prompts_per_user l - int i)) [0..<length ts] \<and>
         map snd (fst (rounds True l u ts)) = replicate (length ts) True \<and>
         fst (can_user_make_prompt True (snd (rounds True l u ts)) u T)
           = (False, max_prompts_per_user l, 0)"
proof -
  let ?W = "real_of_int (reset_hours l * 3600)"
  let ?l' = "snd (rounds True l u ts)"
  from assms(3) have T: "t0 \<le> T" "T \<le> t0 + ?W"
    and ts: "list_all (\<lambda>t. t0 \<le> t \<and> t \<le> t0 + ?W) (times_of ts)"
    by (simp_all add: within_window_def)
  have r: "map fst (fst (rounds True l u ts)) =
           map (\<lambda>i. (True, int i, max_prompts_per_user l - int i))
               [length (user_prompts l u)..<length (user_prompts l u) + length ts]"
     "map snd (fst (rounds True l u ts)) = replicate (length ts) True"
     "user_prompts ?l' u = user_prompts l u @ map (\<lambda>(t1, t2, t3). t3) ts"
     "max_prompts_per_user ?l' = max_prompts_per_user l"
     "reset_hours ?l' = reset_hours l"
    using rounds_allowed [OF ts, of u] assms(1,2) by simp_all
  have stamps: "\<forall>e \<in> set (map (\<lambda>(t1, t2, t3). t3) ts). t0 \<le> e"
    using ts by (auto simp: times_of_def list_all_iff)
  have "\<forall>e \<in> set (user_prompts ?l' u). T - real_of_int (reset_hours ?l' * 3600) \<le> e"
    using stamps T r(3,5) assms(1) by fastforce
  from check_keeps [OF this] r(3,4) assms(1,2)
  have "fst (can_user_make_prompt True ?l' u T) = (False, max_prompts_per_user l, 0)"
    by simp
  with r(1,2) assms(1) show ?thesis by simp
qed

theorem quota_exhausts_after_max_witness:
  "map fst (fst (rounds True user_limiter ''u1'' [(0, 1, 2), (10, 11, 12), (20, 21, 22)]))
     = [(True, 0, 3), (True, 1, 2), (True, 2, 1)] \<and>
   map snd (fst (rounds True user_limiter ''u1'' [(0, 1, 2), (10, 11, 12), (20, 21, 22)]))
     = [True, True, True] \<and>
   fst (can_user_make_prompt True
          (snd (rounds True user_limiter ''u1'' [(0, 1, 2), (10, 11, 12), (20, 21, 22)]))
          ''u1'' 30) = (False, 3, 0)"
  using quota_exhausts_after_max
          [of user_limiter "''u1''" "[(0, 1, 2), (10, 11, 12), (20, 21, 22)]" 0 30]
  by (simp add: user_limiter_def new_limiter_def within_window_def times_of_def upt_conv_Cons)

text \<open>
  C10.  With enforcement off, the check reports allowed, 0 used, the maximum remaining, and
  leaves the tracker as it is; the record still appends its stamp and returns true.  After
  any number of such records, a check with enforcement on, taken while every stamp is still
  inside the reset window, counts all of them against the limit.
\<close>

theorem disabled_quota_still_accrues:
  assumes "\<forall>e \<in> set (user_prompts l u @ map snd ts). T - real_of_int (reset_hours l * 3600) \<le> e"
  shows "can_user_make_prompt False l u now = ((True, 0, max_prompts_per_user l), l) \<and>
         fst (record_prompt False l u now stamp) = True \<and>
         user_prompts (snd (record_prompt False l u now stamp)) u = user_prompts l u @ [stamp] \<and>
         fst (records False l u ts) = replicate (length ts) True \<and>
         user_prompts (snd (records False l u ts)) u = user_prompts l u @ map snd ts \<and>
         fst (can_user_make_prompt True (snd (records False l u ts)) u T)
           = (int (length (user_prompts l u) + length ts) < max_prompts_per_user l,
              int (length (user_prompts l u) + length ts),
              max 0 (max_prompts_per_user l - int (length (user_prompts l u) + length ts)))"
proof -
  let ?l' = "snd (records False l u ts)"
  note r = records_disabled [of l u ts]
  have "\<forall>e \<in> set (user_prompts ?l' u). T - real_of_int (reset_hours ?l' * 3600) \<le> e"
    using assms r by simp
  from check_keeps [OF this] r
  have "fst (can_user_make_prompt True ?l' u T)
           = (int (length (user_prompts l u) + length ts) < max_prompts_per_user l,
              int (length (user_prompts l u) + length ts),
              max 0 (max_prompts_per_user l - int (length (user_prompts l u) + length ts)))"
    by simp
  with r show ?thesis
    by (simp add: check_disabled record_disabled)
qed

theorem disabled_quota_still_accrues_witness:
  "fst (records False user_limiter ''u1'' [(1, 2), (3, 4), (5, 6), (7, 8)])
     = [True, True, True, True] \<and>
   user_prompts (snd (records False user_limiter ''u1'' [(1, 2), (3, 4), (5, 6), (7, 8)])) ''u1''
     = [2, 4, 6, 8] \<and>
   fst (can_user_make_prompt True
          (snd (records False user_limiter ''u1'' [(1, 2), (3, 4), (5, 6), (7, 8)])) ''u1'' 9)
     = (False, 4, 0)"
  using disabled_quota_still_accrues
          [of user_limiter "''u1''" "[(1, 2), (3, 4), (5, 6), (7, 8)]" 9]
  by (simp add: user_limiter_def new_limiter_def)

text \<open>
  C9, as amended.  \<open>add_request\<close> runs the wrapped operation once and passes its result or
  its exception on; it raises \<open>total_requests\<close> by exactly one, and \<open>failed_requests\<close> by
  exactly one when the operation raises an \<open>Exception\<close> (by nothing otherwise).
  \<open>get_stats\<close> returns the keys mode, total_requests, failed_requests, success_rate,
  message and timestamp, with the two counters and their success rate as values.
\<close>

theorem add_request_counts:
  "reply_of (add_request q f st) = fst (f st) \<and>
   events_of (add_request q f st) = snd (f st) \<and>
   total_requests (state_of (add_request q f st)) = total_requests q + 1 \<and>
   failed_requests (state_of (add_request q f st))
     = failed_requests q + (case fst (f st) of
                              Inl e \<Rightarrow> if is_Exception e then 1 else 0
                            | Inr result \<Rightarrow> 0) \<and>
   map fst (get_stats q now)
     = [''mode'', ''total_requests'', ''failed_requests'', ''success_rate'', ''message'',
        ''timestamp''] \<and>
   map_of (get_stats q now) ''total_requests'' = Some (Int_val (total_requests q)) \<and>
   map_of (get_stats q now) ''failed_requests'' = Some (Int_val (failed_requests q)) \<and>
   map_of (get_stats q now) ''success_rate''
     = Some (Float_val (real_of_int (total_requests q - failed_requests q)
                        / real_of_int (max (total_requests q) 1) * 100))"
  by (cases "f st"; cases "fst (f st)")
     (simp_all add: add_request_def get_stats_def reply_of_def state_of_def events_of_def)

theorem add_request_counts_witness:
  "total_requests (state_of (add_request new_tracker
      (\<lambda>s. (Inl NoApiKeys :: exn + pystr, s)) one_key)) = 1 \<and>
   failed_requests (state_of (add_request new_tracker
      (\<lambda>s. (Inl NoApiKeys :: exn + pystr, s)) one_key)) = 1 \<and>
   reply_of (add_request new_tracker (\<lambda>s. (Inl NoApiKeys :: exn + pystr, s)) one_key)
     = Inl NoApiKeys"
  using add_request_counts [of new_tracker "\<lambda>s. (Inl NoApiKeys :: exn + pystr, s)" one_key]
  by (simp add: new_tracker_def)

text \<open>
  The statistics have no capacity entry; and an exception that is not an \<open>Exception\<close> (the
  cancellation of the task) passes through uncounted.
\<close>

theorem stats_capacity_counterexample:
  "map_of (get_stats new_tracker ''2025-01-01T00:00:00'') ''capacity'' = None \<and>
   ''capacity'' \<notin> set (map fst (get_stats new_tracker ''2025-01-01T00:00:00'')) \<and>
   failed_requests (state_of (add_request new_tracker
      (\<lambda>s. (Inl CancelledError :: exn + pystr, s)) one_key)) = 0"
  by (simp add: get_stats_def add_request_def state_of_def new_tracker_def)

lemma generate_response_ok:
  assumes "invariant s"
  shows "\<exists>t s'. generate_response w c s = (Inr t, s')"
proof -
  obtain r s' ev where run: "create_empathetic_response w s c = (r, s', ev)"
    by (metis prod_cases3)
  from create_shape [OF assms run] obtain t where "r = Inr t" by blast
  with run show ?thesis by (simp add: generate_response_def)
qed

lemma send_message_replies:
  assumes "fst (fst (can_user_make_prompt enabled (quota a) (user_id i) (t_check1 i)))"
    and "fst (fst (can_user_make_prompt enabled
                     (snd (can_user_make_prompt enabled (quota a) (user_id i) (t_check1 i)))
                     (user_id i) (t_check2 i)))"
    and "conversation_readable i"
    and "cancelled i \<noteq> None \<or> invariant (llm a)"
  shows "\<not> isl (fst (send_message enabled w i a))"
proof (cases "cancelled i")
  case (Some p)
  with assms(1-3) show ?thesis
    by (cases p) (simp add: send_message_def Let_def case_prod_unfold)
next
  case None
  with assms(4) have "invariant (llm a)" by simp
  from generate_response_ok [OF this] obtain t s' where
    "generate_response w
       \<lparr>user_message = content i, emotion = fst (classification i),
          confidence = snd (classification i), context_messages = Some (history i),
          conversation_subject = subject i\<rparr> (llm a) = (Inr t, s')"
    by blast
  with None assms(1-3) show ?thesis
    by (simp add: send_message_def add_request_def Let_def case_prod_unfold)
qed

text \<open>
  C2, as amended.  Whenever \<open>send_message\<close> builds a reply, be its content a live answer,
  a fallback or the substitute for a request that ran out of time, it has invoked
  \<open>record_prompt\<close> once, after the two checks; the tracker is left as that record leaves it.
  Only when \<open>send_message\<close> raises is no record made: the tracker is then as a check left it.
  And a reply is built whenever both checks allow the prompt, the conversation is found, and
  the awaited call either runs out of time or runs on a service with a key, whatever the
  downstream answers.
\<close>

theorem record_follows_every_reply:
  "(let l1 = snd (can_user_make_prompt enabled (quota a) (user_id i) (t_check1 i));
        l2 = snd (can_user_make_prompt enabled l1 (user_id i) (t_check2 i));
        r = send_message enabled w i a
    in (if isl (fst r) then quota (snd r) = l1 \<or> quota (snd r) = l2
        else quota (snd r) = snd (record_prompt enabled l2 (user_id i) (t_record i) (t_stamp i)))
       \<and> (fst (fst (can_user_make_prompt enabled (quota a) (user_id i) (t_check1 i))) \<and>
          fst (fst (can_user_make_prompt enabled l1 (user_id i) (t_check2 i))) \<and>
          conversation_readable i \<and> (cancelled i \<noteq> None \<or> invariant (llm a))
          \<longrightarrow> \<not> isl (fst r)))"
proof -
  have "if isl (fst (send_message enabled w i a))
        then quota (snd (send_message enabled w i a))
               = snd (can_user_make_prompt enabled (quota a) (user_id i) (t_check1 i)) \<or>
             quota (snd (send_message enabled w i a))
               = snd (can_user_make_prompt enabled
                        (snd (can_user_make_prompt enabled (quota a) (user_id i) (t_check1 i)))
                        (user_id i) (t_check2 i))
        else quota (snd (send_message enabled w i a))
               = snd (record_prompt enabled
                        (snd (can_user_make_prompt enabled
                               (snd (can_user_make_prompt enabled (quota a) (user_id i) (t_check1 i)))
                               (user_id i) (t_check2 i)))
                        (user_id i) (t_record i) (t_stamp i))"
    by (auto simp: send_message_def Let_def
             split: prod.splits if_splits sum.splits option.splits exn.splits)
  then show ?thesis
    using send_message_replies [of enabled a i w] by (simp add: Let_def)
qed

theorem record_follows_every_reply_witness:
  "content_of (fst (send_message True (downstream (\<lambda>n. Response 200 (Content ''Halo'')))
                      sample_inputs sample_app))
     = Inr [Raw ''Halo'', Emotion_ack ''Bingung'' ''bingung'', Learning_tip ''Bingung''] \<and>
   user_prompts (quota (snd (send_message True (downstream (\<lambda>n. Response 200 (Content ''Halo'')))
                             sample_inputs sample_app))) ''u1'' = [103]"
  using record_follows_every_reply
          [of True sample_app sample_inputs "downstream (\<lambda>n. Response 200 (Content ''Halo''))"]
  by (simp add: send_message_def sample_inputs_def sample_app_def user_limiter_def
     new_limiter_def new_tracker_def can_user_make_prompt_def cleanup_old_prompts_def
     record_prompt_def add_request_def generate_response_def content_of_def apology_def
     create_empathetic_response_def one_key_def downstream_def
     get_next_api_key_def random_choice_def default_models_def build_messages_def
     attempt_body_def try_block_def on_response_def handle_def attempt_loop.simps
     get_fallback_response_def enhance_educational_response_def strip_def is_space_def
     template_key_def emotions_def lower_def lower_char_def Let_def)

text \<open>
  A request whose every attempt is answered \<open>500\<close> ends in the generic fallback, and one
  whose deadline fires gets the substitute text; both leave a new stamp in the window of the
  identity, which was empty before.
\<close>

theorem fallback_consumes_quota_counterexample:
  "content_of (fst (send_message True (downstream (\<lambda>n. Response 500 No_json))
                      sample_inputs sample_app))
     = Inr [Fallback Generic ''Bingung''] \<and>
   user_prompts (quota sample_app) ''u1'' = [] \<and>
   user_prompts (quota (snd (send_message True (downstream (\<lambda>n. Response 500 No_json))
                             sample_inputs sample_app))) ''u1'' = [103] \<and>
   content_of (fst (send_message True (downstream (\<lambda>n. Response 500 No_json))
                      (sample_inputs\<lparr>cancelled := Some (new_tracker, one_key)\<rparr>) sample_app))
     = Inr apology \<and>
   user_prompts (quota (snd (send_message True (downstream (\<lambda>n. Response 500 No_json))
                             (sample_inputs\<lparr>cancelled := Some (new_tracker, one_key)\<rparr>)
                             sample_app))) ''u1'' = [103]"
  by (simp add: send_message_def sample_inputs_def sample_app_def user_limiter_def
     new_limiter_def new_tracker_def can_user_make_prompt_def cleanup_old_prompts_def
     record_prompt_def add_request_def generate_response_def content_of_def apology_def
     create_empathetic_response_def one_key_def downstream_def
     get_next_api_key_def random_choice_def default_models_def build_messages_def
     attempt_body_def try_block_def on_response_def handle_def attempt_loop.simps
     get_fallback_response_def enhance_educational_response_def strip_def is_space_def
     template_key_def emotions_def lower_def lower_char_def Let_def)

end
